theory Spec2Isabelle
  imports Complex_Main "HOL-Library.Signed_Division"
begin

unbundle bit_operations_syntax

section \<open>The hash map of \<open>hashMap.hpp\<close>\<close>

text \<open>
  The class template \<open>HashMap<keyT, valueT>\<close> keeps three members: \<open>_buckets\<close> (an
  array of \<open>_capacity\<close> vectors of pairs), \<open>_size\<close> and \<open>_capacity\<close> (both \<open>int\<close>).
  The array is a list of buckets, a bucket a list of pairs, and every member function
  takes the table and returns the new one.

  \<^item> \<open>std::hash<keyT>\<close> is a parameter \<open>hf\<close> of every function that hashes; it returns
    a \<open>size_t\<close>, read here as a natural number.
  \<^item> \<open>_size\<close> and \<open>_capacity\<close> are mathematical integers: the embedding covers the
    executions in which no \<open>int\<close> overflows (signed overflow is undefined in C++, and
    \<open>_capacity *= 2\<close> reaches it only beyond \<open>2^30\<close> buckets).
  \<^item> \<open>double(_size) / _capacity\<close> is the real quotient. Both operands are below \<open>2^31\<close>
    and the bounds \<open>0.25\<close> and \<open>0.75\<close> are binary fractions, so the comparisons of the
    rounded quotient with them come out as those of the exact quotient. A capacity of 0,
    where the source divides by zero, is excluded by \<open>hm_wf\<close> and never reached from a
    constructor.
  \<^item> \<open>_buckets[i]\<close> is \<open>m_buckets t ! nat i\<close>. Reading outside the array is undefined
    in the source; the invariant \<open>hm_wf\<close> below keeps every index the code computes
    inside the array, and the theorems about bucket contents assume it.
  \<^item> Both \<open>throw std::exception()\<close> of the source are the error \<open>StdException\<close>.
    A non-void function that runs off its end, and reading through an iterator that
    points at no element, are \<open>Undefined\<close>.
  \<^item> \<open>insert\<close> calls \<open>resize\<close>, which calls \<open>insert\<close> for every stored pair. The
    recursion is bounded by a fuel argument that counts the nested activations of
    \<open>resize\<close> still allowed; \<open>OutOfFuel\<close> is the result when it is used up.
\<close>

datatype error = StdException | Undefined | OutOfFuel

record ('k, 'v) HashMap =
  m_buckets :: "('k \<times> 'v) list list"
  m_size :: int
  m_capacity :: int

definition DEF_LOW_BOUND :: real where "DEF_LOW_BOUND = 0.25"
definition DEF_HIGH_BOUND :: real where "DEF_HIGH_BOUND = 0.75"
definition DEF_CAPACITY :: int where "DEF_CAPACITY = 16"
definition UP :: int where "UP = 1"
definition DOWN :: int where "DOWN = 0"

subsection \<open>Private helpers\<close>

text \<open>\<open>hashy\<close> (lines 33-36): \<open>std::hash<keyT>()(item) & (_capacity - 1)\<close>.\<close>

definition hashy :: "('k \<Rightarrow> nat) \<Rightarrow> ('k, 'v) HashMap \<Rightarrow> 'k \<Rightarrow> int" where
  "hashy hf t item = int (hf item) AND (m_capacity t - 1)"

text \<open>\<open>first\<close> (lines 44-54): the index of the first non-empty bucket, or \<open>_capacity\<close>.\<close>

function first_from :: "('k, 'v) HashMap \<Rightarrow> int \<Rightarrow> int" where
  "first_from t i =
     (if i < m_capacity t
      then (if m_buckets t ! nat i \<noteq> [] then i else first_from t (i + 1))
      else m_capacity t)"
  by pat_completeness auto
termination
  by (relation "measure (\<lambda>(t, i). nat (m_capacity t - i))") auto

declare first_from.simps [simp del]

definition first :: "('k, 'v) HashMap \<Rightarrow> int" where
  "first t = first_from t 0"

subsection \<open>Getters\<close>

definition size_hm :: "('k, 'v) HashMap \<Rightarrow> int" where
  "size_hm t = m_size t"

definition capacity :: "('k, 'v) HashMap \<Rightarrow> int" where
  "capacity t = m_capacity t"

definition getLoadFactor :: "('k, 'v) HashMap \<Rightarrow> real" where
  "getLoadFactor t = real_of_int (m_size t) / real_of_int (m_capacity t)"

text \<open>\<open>empty\<close> (lines 189-192) returns \<open>_size != 0\<close>.\<close>

definition empty_hm :: "('k, 'v) HashMap \<Rightarrow> bool" where
  "empty_hm t = (m_size t \<noteq> 0)"

subsection \<open>Lookup\<close>

text \<open>
  The scan \<open>for (j = 0; j < b.size(); j++) if (b[j].first == key) ...\<close> that
  \<open>bucketIndex\<close>, \<open>at\<close>, \<open>erase\<close> and \<open>operator[]\<close> all run: the first position of the
  key in the bucket, if there is one.
\<close>

primrec find_key :: "('k \<times> 'v) list \<Rightarrow> 'k \<Rightarrow> nat option" where
  "find_key [] key = None"
| "find_key (e # es) key =
     (if fst e = key then Some 0 else map_option Suc (find_key es key))"

text \<open>\<open>bucketIndex\<close> (lines 324-335).\<close>

definition bucketIndex :: "('k \<Rightarrow> nat) \<Rightarrow> ('k, 'v) HashMap \<Rightarrow> 'k \<Rightarrow> error + int" where
  "bucketIndex hf t key =
     (let i = hashy hf t key
      in case find_key (m_buckets t ! nat i) key of
           Some j \<Rightarrow> Inr i
         | None \<Rightarrow> Inl StdException)"

text \<open>\<open>containsKey\<close> (lines 199-211): the exception of \<open>bucketIndex\<close> is caught.\<close>

definition containsKey :: "('k \<Rightarrow> nat) \<Rightarrow> ('k, 'v) HashMap \<Rightarrow> 'k \<Rightarrow> bool" where
  "containsKey hf t key =
     (case bucketIndex hf t key of Inr i \<Rightarrow> True | Inl ex \<Rightarrow> False)"

text \<open>\<open>at\<close> (lines 279-297): the exception of \<open>bucketIndex\<close> is thrown again.\<close>

definition at_hm :: "('k \<Rightarrow> nat) \<Rightarrow> ('k, 'v) HashMap \<Rightarrow> 'k \<Rightarrow> error + 'v" where
  "at_hm hf t key =
     (case bucketIndex hf t key of
        Inl ex \<Rightarrow> Inl ex
      | Inr i \<Rightarrow>
          (case find_key (m_buckets t ! nat i) key of
             Some j \<Rightarrow> Inr (snd (m_buckets t ! nat i ! j))
           | None \<Rightarrow> Inl Undefined))"

subsection \<open>clear, insert, resize, erase\<close>

text \<open>
  \<open>clear\<close> (lines 340-346) clears the buckets \<open>0 .. _capacity - 1\<close> one by one and
  touches neither \<open>_size\<close> nor \<open>_capacity\<close>.
\<close>

definition clear :: "('k, 'v) HashMap \<Rightarrow> ('k, 'v) HashMap" where
  "clear t =
     t\<lparr>m_buckets := fold (\<lambda>i bs. bs[i := []]) [0..<nat (m_capacity t)] (m_buckets t)\<rparr>"

text \<open>
  \<open>insert\<close> (lines 220-237) and \<open>resize\<close> (lines 61-84). \<open>reinsert\<close> is the double loop
  of \<open>resize\<close> over the saved buckets, in index order and then in bucket order.
\<close>

fun insert_hm ::
    "nat \<Rightarrow> ('k \<Rightarrow> nat) \<Rightarrow> ('k, 'v) HashMap \<Rightarrow> 'k \<Rightarrow> 'v \<Rightarrow> error + (bool \<times> ('k, 'v) HashMap)"
  and resize :: "nat \<Rightarrow> ('k \<Rightarrow> nat) \<Rightarrow> ('k, 'v) HashMap \<Rightarrow> int \<Rightarrow> error + ('k, 'v) HashMap"
  and reinsert ::
    "nat \<Rightarrow> ('k \<Rightarrow> nat) \<Rightarrow> ('k \<times> 'v) list \<Rightarrow> ('k, 'v) HashMap \<Rightarrow> error + ('k, 'v) HashMap"
where
  "insert_hm n hf t key val =
     (if containsKey hf t key then Inr (False, t)
      else
        let keyHash = hashy hf t key;
            t1 = t\<lparr>m_buckets :=
                     (m_buckets t)[nat keyHash := m_buckets t ! nat keyHash @ [(key, val)]],
                   m_size := m_size t + 1\<rparr>
        in if getLoadFactor t1 > DEF_HIGH_BOUND
           then (case resize n hf t1 UP of Inl ex \<Rightarrow> Inl ex | Inr t2 \<Rightarrow> Inr (True, t2))
           else Inr (True, t1))"
| "resize 0 hf t way = Inl OutOfFuel"
| "resize (Suc n) hf t way =
     (let savedCapacity = m_capacity t;
          cap = (if way = UP then m_capacity t * 2 else m_capacity t sdiv 2);
          saved = m_buckets t;
          t0 = clear \<lparr>m_buckets = replicate (nat cap) [], m_size = 0, m_capacity = cap\<rparr>
      in reinsert n hf (concat (map (\<lambda>i. saved ! i) [0..<nat savedCapacity])) t0)"
| "reinsert n hf [] t = Inr t"
| "reinsert n hf (pair # rest) t =
     (case insert_hm n hf t (fst pair) (snd pair) of
        Inl ex \<Rightarrow> Inl ex
      | Inr (b, t1) \<Rightarrow> reinsert n hf rest t1)"

declare insert_hm.simps [simp del]

text \<open>
  \<open>erase\<close> (lines 245-271). \<open>bucketIndex\<close> has found the key in bucket \<open>i\<close>, so the scan
  of that bucket finds it again; the end of the function after the loop returns nothing.
\<close>

definition erase ::
    "nat \<Rightarrow> ('k \<Rightarrow> nat) \<Rightarrow> ('k, 'v) HashMap \<Rightarrow> 'k \<Rightarrow> error + (bool \<times> ('k, 'v) HashMap)" where
  "erase n hf t key =
     (case bucketIndex hf t key of
        Inl ex \<Rightarrow> Inr (False, t)
      | Inr i \<Rightarrow>
          (case find_key (m_buckets t ! nat i) key of
             None \<Rightarrow> Inl Undefined
           | Some j \<Rightarrow>
               let b = m_buckets t ! nat i;
                   t1 = t\<lparr>m_buckets := (m_buckets t)[nat i := take j b @ drop (Suc j) b],
                          m_size := m_size t - 1\<rparr>
               in if getLoadFactor t1 < DEF_LOW_BOUND
                  then (case resize n hf t1 DOWN of
                          Inl ex \<Rightarrow> Inl ex
                        | Inr t2 \<Rightarrow> Inr (True, t2))
                  else Inr (True, t1)))"

subsection \<open>Constructors\<close>

text \<open>The default constructor (lines 90-101).\<close>

definition HashMap_default :: "('k, 'v) HashMap" where
  "HashMap_default =
     \<lparr>m_buckets = replicate (nat DEF_CAPACITY) [], m_size = 0, m_capacity = DEF_CAPACITY\<rparr>"

subsection \<open>The iterator\<close>

text \<open>
  An iterator (lines 353-435) holds the table it walks (here passed along), a vector
  iterator \<open>_it\<close> and the index \<open>_index\<close> of the bucket that \<open>_it\<close> points into.
  \<open>_it\<close> is the offset \<open>it_pos\<close> inside that bucket. The source compares two
  iterators by comparing \<open>_it\<close>; two positions of one table are the same address
  exactly when bucket and offset agree, which is what \<open>it_eq\<close> compares.
\<close>

record iterator =
  it_pos :: nat
  it_index :: int

definition it_eq :: "iterator \<Rightarrow> iterator \<Rightarrow> bool" where
  "it_eq a b = (it_index a = it_index b \<and> it_pos a = it_pos b)"

text \<open>\<open>end\<close> (lines 441-444) and \<open>begin\<close> (lines 450-461).\<close>

definition end_hm :: "('k, 'v) HashMap \<Rightarrow> iterator" where
  "end_hm t =
     \<lparr>it_pos = length (m_buckets t ! nat (m_capacity t - 1)), it_index = m_capacity t - 1\<rparr>"

definition begin_hm :: "('k, 'v) HashMap \<Rightarrow> iterator" where
  "begin_hm t =
     (let i = first t
      in if i = m_capacity t then end_hm t else \<lparr>it_pos = 0, it_index = i\<rparr>)"

text \<open>
  \<open>operator++\<close> (lines 376-385): \<open>_it++\<close>, then the loop that moves to the next
  bucket while \<open>_it\<close> is at the end of the current one and a next bucket exists.
\<close>

function next_bucket :: "('k, 'v) HashMap \<Rightarrow> iterator \<Rightarrow> iterator" where
  "next_bucket t it =
     (if it_pos it = length (m_buckets t ! nat (it_index it)) \<and> it_index it < m_capacity t - 1
      then next_bucket t \<lparr>it_pos = 0, it_index = it_index it + 1\<rparr>
      else it)"
  by pat_completeness auto
termination
  by (relation "measure (\<lambda>(t, it). nat (m_capacity t - 1 - it_index it))") auto

declare next_bucket.simps [simp del]

definition incr :: "('k, 'v) HashMap \<Rightarrow> iterator \<Rightarrow> iterator" where
  "incr t it = next_bucket t (it\<lparr>it_pos := it_pos it + 1\<rparr>)"

text \<open>\<open>operator*\<close> (lines 402-405) reads the pair under \<open>_it\<close>, when there is one.\<close>

definition on_element :: "('k, 'v) HashMap \<Rightarrow> iterator \<Rightarrow> bool" where
  "on_element t it =
     (0 \<le> it_index it \<and> nat (it_index it) < length (m_buckets t) \<and>
      it_pos it < length (m_buckets t ! nat (it_index it)))"

definition deref :: "('k, 'v) HashMap \<Rightarrow> iterator \<Rightarrow> 'k \<times> 'v" where
  "deref t it = m_buckets t ! nat (it_index it) ! it_pos it"

text \<open>
  The loop \<open>for (auto i = other.begin(); i != other.end(); i++)\<close> is written three
  times in the source. Each round is entered with \<open>i\<close> different from \<open>end()\<close> and
  reads \<open>*i\<close>; the order below decreases with every \<open>i++\<close> taken from an element, so
  each of the three loops is a total function.
\<close>

definition walk_order :: "(('k, 'v) HashMap \<times> iterator) rel" where
  "walk_order =
     inv_image (less_than <*lex*> less_than)
       (\<lambda>(t, it). (nat (m_capacity t - it_index it),
                   Suc (length (m_buckets t ! nat (it_index it))) - it_pos it))"

lemma wf_walk_order: "wf walk_order"
  unfolding walk_order_def by (intro wf_inv_image wf_lex_prod wf_less_than)

lemma next_bucket_moves:
  "next_bucket t it = it \<or>
   (it_index it < it_index (next_bucket t it) \<and> it_index it < m_capacity t - 1)"
proof (induction t it rule: next_bucket.induct)
  case (1 t it)
  show ?case
  proof (cases "it_pos it = length (m_buckets t ! nat (it_index it))
                \<and> it_index it < m_capacity t - 1")
    case True
    with 1 show ?thesis by (subst (1 2) next_bucket.simps) auto
  next
    case False
    then have "next_bucket t it = it" by (subst next_bucket.simps) auto
    then show ?thesis by simp
  qed
qed

lemma incr_walk_order: "on_element t it \<Longrightarrow> ((t, incr t it), (t, it)) \<in> walk_order"
proof -
  assume el: "on_element t it"
  let ?j = "it\<lparr>it_pos := it_pos it + 1\<rparr>"
  from next_bucket_moves [of t ?j]
  show ?thesis
  proof
    assume "next_bucket t ?j = ?j"
    with el show ?thesis by (auto simp: incr_def walk_order_def on_element_def)
  next
    assume "it_index ?j < it_index (next_bucket t ?j) \<and> it_index ?j < m_capacity t - 1"
    then show ?thesis by (simp add: incr_def walk_order_def)
  qed
qed

text \<open>The traversal a client writes: every \<open>*i\<close> from \<open>begin()\<close> until \<open>end()\<close>.\<close>

function traverse_from :: "('k, 'v) HashMap \<Rightarrow> iterator \<Rightarrow> error + ('k \<times> 'v) list" where
  "traverse_from t i =
     (if it_eq i (end_hm t) then Inr []
      else if \<not> on_element t i then Inl Undefined
      else (case traverse_from t (incr t i) of
              Inl ex \<Rightarrow> Inl ex
            | Inr ps \<Rightarrow> Inr (deref t i # ps)))"
  by pat_completeness auto
termination
  by (relation walk_order) (auto simp: wf_walk_order incr_walk_order)

declare traverse_from.simps [simp del]

definition traverse :: "('k, 'v) HashMap \<Rightarrow> error + ('k \<times> 'v) list" where
  "traverse t = traverse_from t (begin_hm t)"

text \<open>The loop of the copy constructor and of \<open>operator=\<close>: \<open>insert\<close> every pair.\<close>

function copy_loop ::
    "nat \<Rightarrow> ('k \<Rightarrow> nat) \<Rightarrow> ('k, 'v) HashMap \<Rightarrow> iterator \<Rightarrow> ('k, 'v) HashMap
       \<Rightarrow> error + ('k, 'v) HashMap" where
  "copy_loop n hf other i this =
     (if it_eq i (end_hm other) then Inr this
      else if \<not> on_element other i then Inl Undefined
      else (case insert_hm n hf this (fst (deref other i)) (snd (deref other i)) of
              Inl ex \<Rightarrow> Inl ex
            | Inr (b, this1) \<Rightarrow> copy_loop n hf other (incr other i) this1))"
  by pat_completeness auto
termination
  by (relation "inv_image walk_order (\<lambda>(n, hf, other, i, this). (other, i))")
     (auto simp: wf_walk_order incr_walk_order)

declare copy_loop.simps [simp del]

text \<open>
  The copy constructor (lines 133-148): \<open>_size\<close> starts at \<open>other._size\<close>,
  \<open>_capacity\<close> at \<open>other._capacity\<close>, the buckets empty; then every pair of \<open>other\<close>
  is inserted.
\<close>

definition HashMap_copy :: "nat \<Rightarrow> ('k \<Rightarrow> nat) \<Rightarrow> ('k, 'v) HashMap \<Rightarrow> error + ('k, 'v) HashMap" where
  "HashMap_copy n hf other =
     copy_loop n hf other (begin_hm other)
       \<lparr>m_buckets = replicate (nat (m_capacity other)) [],
        m_size = m_size other, m_capacity = m_capacity other\<rparr>"

text \<open>
  \<open>operator=\<close> (lines 468-486) on two different objects: \<open>_size = 0\<close>, a new array of
  \<open>other._capacity\<close> empty buckets, then every pair of \<open>other\<close> is inserted. (Assigning
  an object to itself changes nothing.)
\<close>

definition assign :: "nat \<Rightarrow> ('k \<Rightarrow> nat) \<Rightarrow> ('k, 'v) HashMap \<Rightarrow> ('k, 'v) HashMap
    \<Rightarrow> error + ('k, 'v) HashMap" where
  "assign n hf this other =
     copy_loop n hf other (begin_hm other)
       (this\<lparr>m_size := 0, m_buckets := replicate (nat (m_capacity other)) [],
             m_capacity := m_capacity other\<rparr>)"

text \<open>
  \<open>operator==\<close> (lines 537-558): different sizes are unequal; otherwise every pair of
  \<open>other\<close> is looked up in \<open>this\<close> with \<open>at\<close>, whose exception is caught.
\<close>

function eq_loop ::
    "('k \<Rightarrow> nat) \<Rightarrow> ('k, 'v) HashMap \<Rightarrow> ('k, 'v) HashMap \<Rightarrow> iterator \<Rightarrow> error + bool" where
  "eq_loop hf this other i =
     (if it_eq i (end_hm other) then Inr True
      else if \<not> on_element other i then Inl Undefined
      else (case at_hm hf this (fst (deref other i)) of
              Inl StdException \<Rightarrow> Inr False
            | Inl ex \<Rightarrow> Inl ex
            | Inr v \<Rightarrow>
                if v \<noteq> snd (deref other i) then Inr False
                else eq_loop hf this other (incr other i)))"
  by pat_completeness auto
termination
  by (relation "inv_image walk_order (\<lambda>(hf, this, other, i). (other, i))")
     (auto simp: wf_walk_order incr_walk_order)

declare eq_loop.simps [simp del]

definition equals :: "('k \<Rightarrow> nat) \<Rightarrow> ('k, 'v) HashMap \<Rightarrow> ('k, 'v) HashMap \<Rightarrow> error + bool" where
  "equals hf this other =
     (if m_size this \<noteq> m_size other then Inr False
      else eq_loop hf this other (begin_hm other))"

subsection \<open>operator[] and the constructor from two vectors\<close>

text \<open>
  \<open>operator[]\<close> (lines 494-509) inserts the key with a default-constructed value \<open>a\<close>
  when it is absent, then returns a reference to the value stored under the key: the
  reference is the pair of the bucket index and the position in the bucket.
\<close>

definition subscript ::
    "nat \<Rightarrow> ('k \<Rightarrow> nat) \<Rightarrow> 'v \<Rightarrow> ('k, 'v) HashMap \<Rightarrow> 'k
       \<Rightarrow> error + (('k, 'v) HashMap \<times> (int \<times> nat))" where
  "subscript n hf a t key =
     (case (if \<not> containsKey hf t key then insert_hm n hf t key a else Inr (False, t)) of
        Inl ex \<Rightarrow> Inl ex
      | Inr (b, t1) \<Rightarrow>
          (let h = hashy hf t1 key
           in case find_key (m_buckets t1 ! nat h) key of
                Some i \<Rightarrow> Inr (t1, (h, i))
              | None \<Rightarrow> Inl Undefined))"

text \<open>Writing a value through such a reference: \<open>_buckets[h][i].second = v\<close>.\<close>

definition store :: "('k, 'v) HashMap \<Rightarrow> int \<times> nat \<Rightarrow> 'v \<Rightarrow> ('k, 'v) HashMap" where
  "store t r v =
     (let b = m_buckets t ! nat (fst r)
      in t\<lparr>m_buckets := (m_buckets t)[nat (fst r) := b[snd r := (fst (b ! snd r), v)]]\<rparr>)"

text \<open>
  The constructor from two vectors (lines 110-127): vectors of different lengths throw;
  otherwise \<open>(*this)[keys[index]] = values[index]\<close> for every index in turn. The loop
  runs over the two vectors in step; it is entered only with vectors of one length, so
  it ends when both are used up.
\<close>

fun from_loop ::
    "nat \<Rightarrow> ('k \<Rightarrow> nat) \<Rightarrow> 'v \<Rightarrow> 'k list \<Rightarrow> 'v list \<Rightarrow> ('k, 'v) HashMap
       \<Rightarrow> error + ('k, 'v) HashMap" where
  "from_loop n hf a (key # keys) (val # vals) t =
     (case subscript n hf a t key of
        Inl ex \<Rightarrow> Inl ex
      | Inr (t1, r) \<Rightarrow> from_loop n hf a keys vals (store t1 r val))"
| "from_loop n hf a keys vals t = Inr t"

definition HashMap_from ::
    "nat \<Rightarrow> ('k \<Rightarrow> nat) \<Rightarrow> 'v \<Rightarrow> 'k list \<Rightarrow> 'v list \<Rightarrow> error + ('k, 'v) HashMap" where
  "HashMap_from n hf a keys vals =
     (if length keys \<noteq> length vals then Inl StdException
      else from_loop n hf a keys vals HashMap_default)"

subsection \<open>Sequences of insert and erase\<close>

datatype ('k, 'v) operation = Insert 'k 'v | Erase 'k

fun apply_op ::
    "nat \<Rightarrow> ('k \<Rightarrow> nat) \<Rightarrow> ('k, 'v) HashMap \<Rightarrow> ('k, 'v) operation
       \<Rightarrow> error + (bool \<times> ('k, 'v) HashMap)" where
  "apply_op n hf t (Insert key val) = insert_hm n hf t key val"
| "apply_op n hf t (Erase key) = erase n hf t key"

fun run :: "nat \<Rightarrow> ('k \<Rightarrow> nat) \<Rightarrow> ('k, 'v) HashMap \<Rightarrow> ('k, 'v) operation list
    \<Rightarrow> error + ('k, 'v) HashMap" where
  "run n hf t [] = Inr t"
| "run n hf t (x # xs) =
     (case apply_op n hf t x of Inl ex \<Rightarrow> Inl ex | Inr (b, t1) \<Rightarrow> run n hf t1 xs)"

section \<open>Invariant and abstraction\<close>

text \<open>The stored pairs, bucket by bucket, each bucket in its stored order.\<close>

definition entries :: "('k, 'v) HashMap \<Rightarrow> ('k \<times> 'v) list" where
  "entries t = concat (m_buckets t)"

text \<open>The finite map a table stands for.\<close>

definition bindings :: "('k, 'v) HashMap \<Rightarrow> 'k \<rightharpoonup> 'v" where
  "bindings t = map_of (entries t)"

text \<open>
  The layout of a table: at least one bucket, as many buckets as \<open>_capacity\<close> says,
  every pair in the bucket its key hashes to, and no key twice in a bucket.
\<close>

definition hm_wf :: "('k \<Rightarrow> nat) \<Rightarrow> ('k, 'v) HashMap \<Rightarrow> bool" where
  "hm_wf hf t \<longleftrightarrow>
     1 \<le> m_capacity t \<and>
     length (m_buckets t) = nat (m_capacity t) \<and>
     (\<forall>i < length (m_buckets t). \<forall>e \<in> set (m_buckets t ! i). hashy hf t (fst e) = int i) \<and>
     (\<forall>b \<in> set (m_buckets t). distinct (map fst b))"

text \<open>
  The invariant of the data model: the layout, \<open>_size\<close> is the number of stored pairs,
  and the load factor is at most \<open>0.75\<close>.
\<close>

definition hm_inv :: "('k \<Rightarrow> nat) \<Rightarrow> ('k, 'v) HashMap \<Rightarrow> bool" where
  "hm_inv hf t \<longleftrightarrow>
     hm_wf hf t \<and> m_size t = int (length (entries t)) \<and> 4 * m_size t \<le> 3 * m_capacity t"

text \<open>What \<open>insert\<close> does to an absent key before it looks at the load factor.\<close>

definition push :: "('k \<Rightarrow> nat) \<Rightarrow> ('k, 'v) HashMap \<Rightarrow> 'k \<Rightarrow> 'v \<Rightarrow> ('k, 'v) HashMap" where
  "push hf t k v =
     t\<lparr>m_buckets :=
         (m_buckets t)[nat (hashy hf t k) := m_buckets t ! nat (hashy hf t k) @ [(k, v)]],
       m_size := m_size t + 1\<rparr>"

text \<open>What \<open>erase\<close> does at position \<open>j\<close> of bucket \<open>i\<close> before it looks at the load factor.\<close>

definition pop :: "('k, 'v) HashMap \<Rightarrow> int \<Rightarrow> nat \<Rightarrow> ('k, 'v) HashMap" where
  "pop t i j =
     t\<lparr>m_buckets :=
         (m_buckets t)[nat i := take j (m_buckets t ! nat i) @ drop (Suc j) (m_buckets t ! nat i)],
       m_size := m_size t - 1\<rparr>"

text \<open>
  What the specification says an operation does to the bindings: \<open>insert\<close> binds an
  absent key and leaves a present one alone, \<open>erase\<close> removes the key.
\<close>

fun abs_apply :: "('k \<rightharpoonup> 'v) \<Rightarrow> ('k, 'v) operation \<Rightarrow> ('k \<rightharpoonup> 'v)" where
  "abs_apply m (Insert k v) = (if m k = None then m(k \<mapsto> v) else m)"
| "abs_apply m (Erase k) = m(k := None)"

text \<open>
  What a successful \<open>insert\<close> of a new key, and a successful \<open>erase\<close>, do to the pair
  of \<open>_size\<close> and \<open>_capacity\<close>.
\<close>

definition grow :: "int \<times> int \<Rightarrow> int \<times> int" where
  "grow sc = (fst sc + 1, if 3 * snd sc < 4 * (fst sc + 1) then 2 * snd sc else snd sc)"

definition shrink :: "int \<times> int \<Rightarrow> int \<times> int" where
  "shrink sc = (fst sc - 1, if 4 * (fst sc - 1) < snd sc then snd sc div 2 else snd sc)"

definition is_pow2 :: "int \<Rightarrow> bool" where
  "is_pow2 c = (\<exists>j::nat. c = 2 ^ j)"

text \<open>
  What holds of every table built from the default constructor by \<open>insert\<close> and
  \<open>erase\<close>: the invariant, a capacity that is a power of two, and a load factor of at
  least \<open>0.25\<close> unless the capacity is 16 or less.
\<close>

definition reach_inv :: "('k \<Rightarrow> nat) \<Rightarrow> ('k, 'v) HashMap \<Rightarrow> bool" where
  "reach_inv hf t \<longleftrightarrow>
     hm_inv hf t \<and> is_pow2 (m_capacity t) \<and>
     (m_capacity t \<le> 16 \<or> m_capacity t \<le> 4 * m_size t)"

text \<open>The loop of \<open>operator==\<close> over a list of pairs instead of an iterator.\<close>

primrec eq_list :: "('k \<Rightarrow> nat) \<Rightarrow> ('k, 'v) HashMap \<Rightarrow> ('k \<times> 'v) list \<Rightarrow> error + bool" where
  "eq_list hf this [] = Inr True"
| "eq_list hf this (p # ps) =
     (case at_hm hf this (fst p) of
        Inl StdException \<Rightarrow> Inr False
      | Inl ex \<Rightarrow> Inl ex
      | Inr v \<Rightarrow> if v \<noteq> snd p then Inr False else eq_list hf this ps)"

text \<open>
  What the specification says the constructor from two sequences builds: every pair in
  turn is bound, a later pair for the same key replacing the earlier one.
\<close>

definition assign_all :: "'k list \<Rightarrow> 'v list \<Rightarrow> ('k \<rightharpoonup> 'v) \<Rightarrow> ('k \<rightharpoonup> 'v)" where
  "assign_all ks vs m = fold (\<lambda>(k, v) m. m(k \<mapsto> v)) (zip ks vs) m"

section \<open>Lemmas\<close>

lemma hashy_range:
  "1 \<le> m_capacity t \<Longrightarrow> 0 \<le> hashy hf t k \<and> hashy hf t k < m_capacity t"
proof -
  assume c: "1 \<le> m_capacity t"
  have "int (hf k) AND (m_capacity t - 1) \<le> m_capacity t - 1"
    using c by (intro AND_upper2) simp
  moreover have "0 \<le> int (hf k) AND (m_capacity t - 1)"
    by simp
  ultimately show ?thesis by (simp add: hashy_def)
qed

lemma hashy_nat_range:
  "hm_wf hf t \<Longrightarrow> nat (hashy hf t k) < length (m_buckets t)"
  using hashy_range [of t hf k] by (simp add: hm_wf_def)

lemma hashy_capacity:
  "m_capacity t' = m_capacity t \<Longrightarrow> hashy hf t' k = hashy hf t k"
  by (simp add: hashy_def)

lemma find_key_None: "find_key b k = None \<longleftrightarrow> k \<notin> fst ` set b"
  by (induction b) auto

lemma find_key_Some:
  "find_key b k = Some j \<Longrightarrow> j < length b \<and> fst (b ! j) = k \<and> map_of b k = Some (snd (b ! j))"
proof (induction b arbitrary: j)
  case Nil
  then show ?case by simp
next
  case (Cons e es)
  show ?case
  proof (cases "fst e = k")
    case True
    with Cons.prems show ?thesis by (cases e) auto
  next
    case False
    with Cons.prems obtain j' where j': "find_key es k = Some j'" "j = Suc j'"
      by auto
    from Cons.IH [OF j'(1)] False j'(2) show ?thesis by (cases e) auto
  qed
qed

lemma distinct_keys_concat:
  "(\<forall>b \<in> set bs. distinct (map fst b)) \<Longrightarrow>
   (\<forall>i < length bs. \<forall>e \<in> set (bs ! i). g (fst e) = int i + off) \<Longrightarrow>
   distinct (map fst (concat bs))"
proof (induction bs arbitrary: off)
  case Nil
  then show ?case by simp
next
  case (Cons b bs)
  have tl: "\<forall>i < length bs. \<forall>e \<in> set (bs ! i). g (fst e) = int i + (off + 1)"
  proof (intro allI impI ballI)
    fix i e assume "i < length bs" "e \<in> set (bs ! i)"
    with Cons.prems(2) [rule_format, of "Suc i" e] show "g (fst e) = int i + (off + 1)"
      by simp
  qed
  have d: "distinct (map fst (concat bs))"
    using Cons.IH [OF _ tl] Cons.prems(1) by simp
  have hd: "\<forall>e \<in> set b. g (fst e) = off"
    using Cons.prems(2) [rule_format, of 0] by simp
  have disj: "fst ` set b \<inter> fst ` set (concat bs) = {}"
  proof (rule ccontr)
    assume "fst ` set b \<inter> fst ` set (concat bs) \<noteq> {}"
    then obtain x where x: "x \<in> fst ` set b" "x \<in> fst ` set (concat bs)"
      by blast
    from x(1) obtain e where e1: "e \<in> set b" "fst e = x" by blast
    from x(2) obtain e' where e2: "e' \<in> set (concat bs)" "fst e' = x" by blast
    from e2(1) obtain c where c: "c \<in> set bs" "e' \<in> set c" by auto
    from c(1) obtain i where "i < length bs" "bs ! i = c"
      by (auto simp: in_set_conv_nth)
    with c(2) have i: "i < length bs" "e' \<in> set (bs ! i)" by simp_all
    note e = e1(1) e2(1) e1(2) [folded e2(2)]
    from tl i have "g (fst e') = int i + (off + 1)" by blast
    moreover from hd e(1) have "g (fst e) = off" by blast
    ultimately show False using e(3) by simp
  qed
  from d disj Cons.prems(1) show ?case by simp
qed

lemma wf_distinct: "hm_wf hf t \<Longrightarrow> distinct (map fst (entries t))"
  unfolding entries_def
  by (rule distinct_keys_concat [where g = "hashy hf t" and off = 0]) (auto simp: hm_wf_def)

lemma wf_bucket_entries:
  assumes "hm_wf hf t"
  shows "(k, v) \<in> set (entries t) \<longleftrightarrow> (k, v) \<in> set (m_buckets t ! nat (hashy hf t k))"
proof
  assume "(k, v) \<in> set (entries t)"
  then obtain c where c: "c \<in> set (m_buckets t)" "(k, v) \<in> set c"
    by (auto simp: entries_def)
  from c(1) obtain i where "i < length (m_buckets t)" "m_buckets t ! i = c"
    by (auto simp: in_set_conv_nth)
  with c(2) have i: "i < length (m_buckets t)" "(k, v) \<in> set (m_buckets t ! i)"
    by simp_all
  with assms have "hashy hf t k = int i" by (fastforce simp: hm_wf_def)
  with i show "(k, v) \<in> set (m_buckets t ! nat (hashy hf t k))" by simp
next
  assume "(k, v) \<in> set (m_buckets t ! nat (hashy hf t k))"
  moreover have "m_buckets t ! nat (hashy hf t k) \<in> set (m_buckets t)"
    using hashy_nat_range [OF assms] by simp
  ultimately show "(k, v) \<in> set (entries t)" by (auto simp: entries_def)
qed

lemma wf_bucket_distinct:
  "hm_wf hf t \<Longrightarrow> distinct (map fst (m_buckets t ! nat (hashy hf t k)))"
  using hashy_nat_range [of hf t k] by (simp add: hm_wf_def)

lemma wf_bucket_map_of:
  assumes "hm_wf hf t"
  shows "map_of (m_buckets t ! nat (hashy hf t k)) k = bindings t k"
proof -
  have "map_of (m_buckets t ! nat (hashy hf t k)) k = Some v \<longleftrightarrow> bindings t k = Some v" for v
    using wf_bucket_entries [OF assms, of k v] wf_distinct [OF assms]
      wf_bucket_distinct [OF assms, of k]
    by (simp add: bindings_def)
  then show ?thesis
    by (cases "bindings t k") (auto simp: option.exhaust_sel)
qed

lemma find_key_bindings:
  "hm_wf hf t \<Longrightarrow>
   find_key (m_buckets t ! nat (hashy hf t k)) k = None \<longleftrightarrow> bindings t k = None"
  unfolding find_key_None
  by (metis map_of_eq_None_iff wf_bucket_map_of)

lemma containsKey_bindings:
  "hm_wf hf t \<Longrightarrow> containsKey hf t k \<longleftrightarrow> bindings t k \<noteq> None"
  using find_key_bindings [of hf t k]
  by (auto simp: containsKey_def bucketIndex_def Let_def split: option.splits)

lemma at_bindings:
  "hm_wf hf t \<Longrightarrow>
   at_hm hf t k = (case bindings t k of None \<Rightarrow> Inl StdException | Some v \<Rightarrow> Inr v)"
  using find_key_bindings [of hf t k] wf_bucket_map_of [of hf t k]
  by (auto simp: at_hm_def bucketIndex_def Let_def split: option.splits dest: find_key_Some)

lemma insert_hm_unfold:
  "insert_hm n hf t k v =
     (if containsKey hf t k then Inr (False, t)
      else if getLoadFactor (push hf t k v) > DEF_HIGH_BOUND
           then (case resize n hf (push hf t k v) UP of
                   Inl ex \<Rightarrow> Inl ex | Inr t2 \<Rightarrow> Inr (True, t2))
           else Inr (True, push hf t k v))"
  by (simp add: insert_hm.simps Let_def push_def)

lemma high_load:
  "0 < m_capacity t \<Longrightarrow> getLoadFactor t > DEF_HIGH_BOUND \<longleftrightarrow> 3 * m_capacity t < 4 * m_size t"
proof -
  assume c: "0 < m_capacity t"
  have "getLoadFactor t > DEF_HIGH_BOUND
        \<longleftrightarrow> 3 * real_of_int (m_capacity t) < 4 * real_of_int (m_size t)"
    using c by (simp add: getLoadFactor_def DEF_HIGH_BOUND_def field_simps)
  also have "\<dots> \<longleftrightarrow> real_of_int (3 * m_capacity t) < real_of_int (4 * m_size t)"
    by simp
  also have "\<dots> \<longleftrightarrow> 3 * m_capacity t < 4 * m_size t"
    by (rule of_int_less_iff)
  finally show ?thesis .
qed

lemma low_load:
  "0 < m_capacity t \<Longrightarrow> getLoadFactor t < DEF_LOW_BOUND \<longleftrightarrow> 4 * m_size t < m_capacity t"
proof -
  assume c: "0 < m_capacity t"
  have "getLoadFactor t < DEF_LOW_BOUND
        \<longleftrightarrow> 4 * real_of_int (m_size t) < real_of_int (m_capacity t)"
    using c by (simp add: getLoadFactor_def DEF_LOW_BOUND_def field_simps)
  also have "\<dots> \<longleftrightarrow> real_of_int (4 * m_size t) < real_of_int (m_capacity t)"
    by simp
  also have "\<dots> \<longleftrightarrow> 4 * m_size t < m_capacity t"
    by (rule of_int_less_iff)
  finally show ?thesis .
qed

lemma concat_update:
  "i < length bs \<Longrightarrow> concat (bs[i := x]) = concat (take i bs) @ x @ concat (drop (Suc i) bs)"
  by (simp add: upd_conv_take_nth_drop)

lemma concat_split:
  "i < length bs \<Longrightarrow> concat bs = concat (take i bs) @ bs ! i @ concat (drop (Suc i) bs)"
  using concat_update [of i bs "bs ! i"] by simp

lemma push_capacity [simp]: "m_capacity (push hf t k v) = m_capacity t"
  by (simp add: push_def)

lemma push_size [simp]: "m_size (push hf t k v) = m_size t + 1"
  by (simp add: push_def)

lemma push_entries_set:
  "hm_wf hf t \<Longrightarrow> set (entries (push hf t k v)) = insert (k, v) (set (entries t))"
proof -
  assume wf: "hm_wf hf t"
  let ?h = "nat (hashy hf t k)"
  have h: "?h < length (m_buckets t)" by (rule hashy_nat_range [OF wf])
  have e1: "entries (push hf t k v) =
      concat (take ?h (m_buckets t)) @ (m_buckets t ! ?h @ [(k, v)])
        @ concat (drop (Suc ?h) (m_buckets t))"
    by (simp add: entries_def push_def concat_update [OF h])
  have e2: "entries t =
      concat (take ?h (m_buckets t)) @ m_buckets t ! ?h @ concat (drop (Suc ?h) (m_buckets t))"
    unfolding entries_def by (rule concat_split [OF h])
  show ?thesis unfolding e1 e2 by auto
qed

lemma push_entries_length:
  "hm_wf hf t \<Longrightarrow> length (entries (push hf t k v)) = Suc (length (entries t))"
proof -
  assume wf: "hm_wf hf t"
  let ?h = "nat (hashy hf t k)"
  have h: "?h < length (m_buckets t)" by (rule hashy_nat_range [OF wf])
  have e1: "entries (push hf t k v) =
      concat (take ?h (m_buckets t)) @ (m_buckets t ! ?h @ [(k, v)])
        @ concat (drop (Suc ?h) (m_buckets t))"
    by (simp add: entries_def push_def concat_update [OF h])
  have e2: "entries t =
      concat (take ?h (m_buckets t)) @ m_buckets t ! ?h @ concat (drop (Suc ?h) (m_buckets t))"
    unfolding entries_def by (rule concat_split [OF h])
  show ?thesis unfolding e1 e2 by simp
qed

lemma wf_place:
  "hm_wf hf t \<Longrightarrow> i < length (m_buckets t) \<Longrightarrow> e \<in> set (m_buckets t ! i) \<Longrightarrow>
   hashy hf t (fst e) = int i"
  by (simp add: hm_wf_def)

lemma push_wf:
  assumes wf: "hm_wf hf t" and absent: "\<not> containsKey hf t k"
  shows "hm_wf hf (push hf t k v)"
proof -
  let ?h = "nat (hashy hf t k)"
  let ?b = "m_buckets t ! ?h"
  have h: "?h < length (m_buckets t)" by (rule hashy_nat_range [OF wf])
  have h0: "int ?h = hashy hf t k"
    using hashy_range [of t hf k] wf by (simp add: hm_wf_def)
  have hy: "hashy hf (push hf t k v) = hashy hf t"
    by (rule ext) (simp add: hashy_def)
  from absent have nk: "k \<notin> fst ` set ?b"
    by (simp add: containsKey_def bucketIndex_def Let_def find_key_None split: option.splits)
  have place: "hashy hf t (fst e) = int i"
    if "i < length (m_buckets t)" "e \<in> set ((m_buckets t)[?h := ?b @ [(k, v)]] ! i)" for i e
  proof (cases "i = ?h")
    case True
    with that h have "e \<in> set ?b \<or> e = (k, v)" by auto
    then show ?thesis
    proof
      assume "e \<in> set ?b"
      from wf_place [OF wf h this] True show ?thesis by simp
    next
      assume "e = (k, v)"
      with h0 True show ?thesis by simp
    qed
  next
    case False
    with that have "e \<in> set (m_buckets t ! i)" by simp
    from wf_place [OF wf that(1) this] show ?thesis .
  qed
  have dist: "distinct (map fst b)" if "b \<in> set ((m_buckets t)[?h := ?b @ [(k, v)]])" for b
  proof -
    from that have "b = ?b @ [(k, v)] \<or> b \<in> set (m_buckets t)"
      using set_update_subset_insert [of "m_buckets t" ?h "?b @ [(k, v)]"] by auto
    then show ?thesis
    proof
      assume "b = ?b @ [(k, v)]"
      moreover have "distinct (map fst ?b)" using wf h by (simp add: hm_wf_def)
      ultimately show ?thesis using nk by simp
    next
      assume "b \<in> set (m_buckets t)"
      with wf show ?thesis by (simp add: hm_wf_def)
    qed
  qed
  have bs: "m_buckets (push hf t k v) = (m_buckets t)[?h := ?b @ [(k, v)]]"
    by (simp add: push_def)
  have c1: "1 \<le> m_capacity (push hf t k v)"
    using wf by (simp add: hm_wf_def)
  have c2: "length (m_buckets (push hf t k v)) = nat (m_capacity (push hf t k v))"
    using wf by (simp add: bs hm_wf_def)
  have c3: "\<forall>i < length (m_buckets (push hf t k v)).
              \<forall>e \<in> set (m_buckets (push hf t k v) ! i). hashy hf (push hf t k v) (fst e) = int i"
    unfolding hy bs using place by simp
  have c4: "\<forall>b \<in> set (m_buckets (push hf t k v)). distinct (map fst b)"
    unfolding bs using dist by blast
  show ?thesis
    unfolding hm_wf_def using c1 c2 c3 c4 by blast
qed

lemma reinsert_ok:
  assumes "hm_wf hf s" and "m_size s = int (length (entries s))"
    and "distinct (map fst es)" and "fst ` set es \<inter> fst ` set (entries s) = {}"
    and "4 * (m_size s + int (length es)) \<le> 3 * m_capacity s"
  shows "\<exists>s'. reinsert n hf es s = Inr s' \<and> hm_wf hf s' \<and> m_capacity s' = m_capacity s \<and>
           m_size s' = m_size s + int (length es) \<and> m_size s' = int (length (entries s')) \<and>
           set (entries s') = set (entries s) \<union> set es"
  using assms
proof (induction es arbitrary: s)
  case Nil
  then show ?case by simp
next
  case (Cons e es)
  obtain k v where e: "e = (k, v)" by (cases e)
  have cap: "0 < m_capacity s" using Cons.prems(1) by (simp add: hm_wf_def)
  from Cons.prems(4) e have "k \<notin> fst ` set (entries s)" by auto
  then have absent: "\<not> containsKey hf s k"
    using containsKey_bindings [OF Cons.prems(1), of k]
    by (simp add: bindings_def map_of_eq_None_iff)
  have noresize: "\<not> getLoadFactor (push hf s k v) > DEF_HIGH_BOUND"
    using Cons.prems(5) cap by (simp add: high_load)
  have step: "insert_hm n hf s k v = Inr (True, push hf s k v)"
    using absent noresize by (simp add: insert_hm_unfold)
  let ?s = "push hf s k v"
  have 1: "hm_wf hf ?s" by (rule push_wf [OF Cons.prems(1) absent])
  have 2: "m_size ?s = int (length (entries ?s))"
    using Cons.prems(2) by (simp add: push_entries_length [OF Cons.prems(1)])
  have 3: "distinct (map fst es)" using Cons.prems(3) by simp
  have kes: "k \<notin> fst ` set es" using Cons.prems(3) e by simp
  have "fst ` set es \<inter> fst ` set (entries s) = {}" using Cons.prems(4) by auto
  with kes have 4: "fst ` set es \<inter> fst ` set (entries ?s) = {}"
    unfolding push_entries_set [OF Cons.prems(1)] by auto
  have 5: "4 * (m_size ?s + int (length es)) \<le> 3 * m_capacity ?s"
    using Cons.prems(5) by simp
  from Cons.IH [OF 1 2 3 4 5] obtain s' where s':
    "reinsert n hf es ?s = Inr s'" "hm_wf hf s'" "m_capacity s' = m_capacity ?s"
    "m_size s' = m_size ?s + int (length es)" "m_size s' = int (length (entries s'))"
    "set (entries s') = set (entries ?s) \<union> set es"
    by blast
  have "reinsert n hf (e # es) s = Inr s'"
    using step s'(1) e by simp
  moreover have "set (entries s') = set (entries s) \<union> set (e # es)"
    using s'(6) e by (simp add: push_entries_set [OF Cons.prems(1)])
  ultimately show ?case using s'(2-5) by auto
qed

lemma sdiv_two: "0 \<le> c \<Longrightarrow> c sdiv 2 = c div (2::int)"
  by (cases "c = 0") (simp_all add: signed_divide_int_def sgn_if)

lemma clear_buckets:
  "m \<le> length bs \<Longrightarrow> fold (\<lambda>i bs. bs[i := []]) [0..<m] bs = replicate m [] @ drop m bs"
proof (induction m)
  case 0
  then show ?case by simp
next
  case (Suc m)
  then have m: "m < length bs" by simp
  have d: "drop m bs = bs ! m # drop (Suc m) bs"
    using m by (simp add: Cons_nth_drop_Suc)
  have "(replicate m [] @ drop m bs)[m := []] = replicate (Suc m) [] @ drop (Suc m) bs"
    unfolding d by (simp add: list_update_append replicate_app_Cons_same)
  with Suc show ?case by simp
qed

lemma clear_all:
  "length (m_buckets t) = nat (m_capacity t) \<Longrightarrow>
   clear t = t\<lparr>m_buckets := replicate (nat (m_capacity t)) []\<rparr>"
  by (simp add: clear_def clear_buckets)

lemma empty_wf:
  "1 \<le> c \<Longrightarrow> hm_wf hf \<lparr>m_buckets = replicate (nat c) [], m_size = s, m_capacity = c\<rparr>"
  by (simp add: hm_wf_def)

lemma empty_entries [simp]:
  "entries \<lparr>m_buckets = replicate n [], m_size = s, m_capacity = c\<rparr> = []"
  by (simp add: entries_def)

lemma resize_ok:
  assumes wf: "hm_wf hf t"
    and c: "c = (if way = UP then m_capacity t * 2 else m_capacity t sdiv 2)"
    and c1: "1 \<le> c"
    and load: "4 * int (length (entries t)) \<le> 3 * c"
  shows "\<exists>t'. resize (Suc n) hf t way = Inr t' \<and> hm_wf hf t' \<and> m_capacity t' = c \<and>
           m_size t' = int (length (entries t)) \<and> m_size t' = int (length (entries t')) \<and>
           set (entries t') = set (entries t)"
proof -
  let ?t0 = "\<lparr>m_buckets = replicate (nat c) [], m_size = 0, m_capacity = c\<rparr> :: ('a, 'b) HashMap"
  have len: "length (m_buckets t) = nat (m_capacity t)"
    using wf by (simp add: hm_wf_def)
  have saved: "concat (map (\<lambda>i. m_buckets t ! i) [0..<nat (m_capacity t)]) = entries t"
    unfolding entries_def len [symmetric] by (simp add: map_nth)
  have cl: "clear ?t0 = ?t0"
    by (simp add: clear_all)
  have unfold: "resize (Suc n) hf t way = reinsert n hf (entries t) ?t0"
    using c cl saved by (simp add: Let_def)
  have d: "distinct (map fst (entries t))" by (rule wf_distinct [OF wf])
  have "\<exists>s'. reinsert n hf (entries t) ?t0 = Inr s' \<and> hm_wf hf s' \<and>
          m_capacity s' = m_capacity ?t0 \<and>
          m_size s' = m_size ?t0 + int (length (entries t)) \<and>
          m_size s' = int (length (entries s')) \<and>
          set (entries s') = set (entries ?t0) \<union> set (entries t)"
    using load by (intro reinsert_ok empty_wf c1 d) simp_all
  then show ?thesis unfolding unfold by auto
qed

lemma bindings_Some:
  "hm_wf hf t \<Longrightarrow> bindings t k = Some v \<longleftrightarrow> (k, v) \<in> set (entries t)"
  using wf_distinct [of hf t] by (simp add: bindings_def)

lemma bindings_same:
  assumes "hm_wf hf t" "hm_wf hf t'" "set (entries t') = set (entries t)"
  shows "bindings t' = bindings t"
  using assms wf_distinct [of hf t] wf_distinct [of hf t']
  by (simp add: bindings_def map_of_inject_set)

lemma option_eqI: "(\<And>v. a = Some v \<longleftrightarrow> b = Some v) \<Longrightarrow> a = b"
  by (cases a; cases b) auto

lemma bindings_unique:
  "hm_wf hf t \<Longrightarrow> (k, v) \<in> set (entries t) \<Longrightarrow> (k, v') \<in> set (entries t) \<Longrightarrow> v = v'"
  using bindings_Some [of hf t k v] bindings_Some [of hf t k v'] by simp

lemma bindings_added:
  assumes wf: "hm_wf hf t" and wf': "hm_wf hf t'"
    and s: "set (entries t') = insert (k, v) (set (entries t))"
  shows "bindings t' = (bindings t)(k \<mapsto> v)"
proof (rule ext, rule option_eqI)
  fix k' v'
  have in': "(k, v) \<in> set (entries t')" using s by simp
  show "bindings t' k' = Some v' \<longleftrightarrow> ((bindings t)(k \<mapsto> v)) k' = Some v'"
  proof (cases "k' = k")
    case True
    have "(k, v') \<in> set (entries t') \<longleftrightarrow> v = v'"
      using bindings_unique [OF wf' in'] in' by blast
    with True show ?thesis unfolding bindings_Some [OF wf'] by auto
  next
    case False
    then show ?thesis by (simp add: bindings_Some [OF wf'] bindings_Some [OF wf] s)
  qed
qed

lemma bindings_removed:
  assumes wf: "hm_wf hf t" and wf': "hm_wf hf t'"
    and m: "(k, v) \<in> set (entries t)"
    and s: "set (entries t') = set (entries t) - {(k, v)}"
  shows "bindings t' = (bindings t)(k := None)"
proof (rule ext, rule option_eqI)
  fix k' v'
  show "bindings t' k' = Some v' \<longleftrightarrow> ((bindings t)(k := None)) k' = Some v'"
  proof (cases "k' = k")
    case True
    have "(k, v') \<in> set (entries t) \<longrightarrow> v' = v"
      using bindings_unique [OF wf m] by blast
    with True show ?thesis unfolding bindings_Some [OF wf'] s by auto
  next
    case False
    then show ?thesis by (simp add: bindings_Some [OF wf'] bindings_Some [OF wf] s)
  qed
qed

lemma hm_inv_wf: "hm_inv hf t \<Longrightarrow> hm_wf hf t"
  by (simp add: hm_inv_def)

lemma insert_ok:
  assumes inv: "hm_inv hf t"
  shows "\<exists>t'. insert_hm (Suc n) hf t k v = Inr (\<not> containsKey hf t k, t') \<and> hm_inv hf t' \<and>
           bindings t' = (if containsKey hf t k then bindings t else (bindings t)(k \<mapsto> v)) \<and>
           m_size t' = (if containsKey hf t k then m_size t else m_size t + 1) \<and>
           m_capacity t' =
             (if \<not> containsKey hf t k \<and> 3 * m_capacity t < 4 * (m_size t + 1)
              then 2 * m_capacity t else m_capacity t)"
proof (cases "containsKey hf t k")
  case True
  with inv show ?thesis by (simp add: insert_hm_unfold)
next
  case False
  let ?p = "push hf t k v"
  have wf: "hm_wf hf t" by (rule hm_inv_wf [OF inv])
  have sz: "m_size t = int (length (entries t))" and ld: "4 * m_size t \<le> 3 * m_capacity t"
    using inv by (simp_all add: hm_inv_def)
  have cap: "1 \<le> m_capacity t" using wf by (simp add: hm_wf_def)
  have pwf: "hm_wf hf ?p" by (rule push_wf [OF wf False])
  have pset: "set (entries ?p) = insert (k, v) (set (entries t))"
    by (rule push_entries_set [OF wf])
  have plen: "int (length (entries ?p)) = m_size t + 1"
    using sz by (simp add: push_entries_length [OF wf])
  have hl: "getLoadFactor ?p > DEF_HIGH_BOUND \<longleftrightarrow> 3 * m_capacity t < 4 * (m_size t + 1)"
    using cap by (simp add: high_load)
  show ?thesis
  proof (cases "3 * m_capacity t < 4 * (m_size t + 1)")
    case grow: True
    have "4 * int (length (entries ?p)) \<le> 3 * (m_capacity t * 2)"
      unfolding plen using ld cap by presburger
    from resize_ok [OF pwf _ _ this, of UP n] cap
    obtain t' where t': "resize (Suc n) hf ?p UP = Inr t'" "hm_wf hf t'"
      "m_capacity t' = m_capacity t * 2" "m_size t' = int (length (entries ?p))"
      "m_size t' = int (length (entries t'))" "set (entries t') = set (entries ?p)"
      by auto
    have ins: "insert_hm (Suc n) hf t k v = Inr (True, t')"
      using False grow hl t'(1) by (simp add: insert_hm_unfold)
    have inv': "hm_inv hf t'"
      unfolding hm_inv_def using t'(2,3,4,5) plen ld cap by presburger
    have b: "bindings t' = (bindings t)(k \<mapsto> v)"
      by (rule bindings_added [OF wf t'(2)]) (simp add: t'(6) pset)
    show ?thesis
      using False grow ins inv' b t'(3,4) plen by simp
  next
    case stay: False
    have ins: "insert_hm (Suc n) hf t k v = Inr (True, ?p)"
      using False stay hl by (simp add: insert_hm_unfold)
    have inv': "hm_inv hf ?p"
      unfolding hm_inv_def using pwf plen stay by simp
    have b: "bindings ?p = (bindings t)(k \<mapsto> v)"
      by (rule bindings_added [OF wf pwf pset])
    show ?thesis
      using False stay ins inv' b by simp
  qed
qed

lemma erase_unfold:
  "erase n hf t k =
     (case find_key (m_buckets t ! nat (hashy hf t k)) k of
        None \<Rightarrow> Inr (False, t)
      | Some j \<Rightarrow>
          if getLoadFactor (pop t (hashy hf t k) j) < DEF_LOW_BOUND
          then (case resize n hf (pop t (hashy hf t k) j) DOWN of
                  Inl ex \<Rightarrow> Inl ex | Inr t2 \<Rightarrow> Inr (True, t2))
          else Inr (True, pop t (hashy hf t k) j))"
  by (simp add: erase_def bucketIndex_def Let_def pop_def split: option.splits)

lemma pop_capacity [simp]: "m_capacity (pop t i j) = m_capacity t"
  by (simp add: pop_def)

lemma pop_size [simp]: "m_size (pop t i j) = m_size t - 1"
  by (simp add: pop_def)

lemma concat_remove:
  assumes i: "i < length bs" and j: "j < length (bs ! i)"
  shows "\<exists>pre post. concat bs = pre @ (bs ! i ! j) # post \<and>
           concat (bs[i := take j (bs ! i) @ drop (Suc j) (bs ! i)]) = pre @ post"
proof -
  let ?b = "bs ! i"
  let ?pre = "concat (take i bs) @ take j ?b"
  let ?post = "drop (Suc j) ?b @ concat (drop (Suc i) bs)"
  have b: "?b = take j ?b @ ?b ! j # drop (Suc j) ?b"
    using j by (simp add: id_take_nth_drop [symmetric])
  have "concat bs = concat (take i bs) @ ?b @ concat (drop (Suc i) bs)"
    by (rule concat_split [OF i])
  also have "\<dots> = ?pre @ (?b ! j) # ?post"
    by (subst b) simp
  finally have 1: "concat bs = ?pre @ (?b ! j) # ?post" .
  have 2: "concat (bs[i := take j ?b @ drop (Suc j) ?b]) = ?pre @ ?post"
    by (simp add: concat_update [OF i])
  from 1 2 show ?thesis by blast
qed

lemma pop_entries:
  assumes wf: "hm_wf hf t" and f: "find_key (m_buckets t ! nat (hashy hf t k)) k = Some j"
  shows "set (entries (pop t (hashy hf t k) j))
           = set (entries t) - {m_buckets t ! nat (hashy hf t k) ! j}"
    and "int (length (entries (pop t (hashy hf t k) j))) = int (length (entries t)) - 1"
    and "m_buckets t ! nat (hashy hf t k) ! j \<in> set (entries t)"
    and "fst (m_buckets t ! nat (hashy hf t k) ! j) = k"
proof -
  let ?h = "nat (hashy hf t k)"
  let ?b = "m_buckets t ! ?h"
  have h: "?h < length (m_buckets t)" by (rule hashy_nat_range [OF wf])
  from find_key_Some [OF f] have j: "j < length ?b" and k: "fst (?b ! j) = k" by simp_all
  from concat_remove [OF h j] obtain pre post where
    pp: "entries t = pre @ (?b ! j) # post" "entries (pop t (hashy hf t k) j) = pre @ post"
    by (auto simp: entries_def pop_def)
  have "distinct (map fst (entries t))" by (rule wf_distinct [OF wf])
  then have d: "distinct (entries t)" by (simp add: distinct_map)
  from d show "set (entries (pop t (hashy hf t k) j)) = set (entries t) - {?b ! j}"
    unfolding pp by auto
  show "int (length (entries (pop t (hashy hf t k) j))) = int (length (entries t)) - 1"
    unfolding pp by simp
  show "?b ! j \<in> set (entries t)" unfolding pp by simp
  show "fst (?b ! j) = k" by (rule k)
qed

lemma pop_wf:
  assumes wf: "hm_wf hf t" and f: "find_key (m_buckets t ! nat (hashy hf t k)) k = Some j"
  shows "hm_wf hf (pop t (hashy hf t k) j)"
proof -
  let ?h = "nat (hashy hf t k)"
  let ?b = "m_buckets t ! ?h"
  let ?c = "take j ?b @ drop (Suc j) ?b"
  let ?p = "pop t (hashy hf t k) j"
  have h: "?h < length (m_buckets t)" by (rule hashy_nat_range [OF wf])
  from find_key_Some [OF f] have j: "j < length ?b" by simp
  have hy: "hashy hf ?p = hashy hf t"
    by (rule ext) (simp add: hashy_def)
  have bs: "m_buckets ?p = (m_buckets t)[?h := ?c]"
    by (simp add: pop_def)
  have sub: "set ?c \<subseteq> set ?b"
    using set_take_subset [of j ?b] set_drop_subset [of "Suc j" ?b] by auto
  have db: "distinct (map fst ?b)" using wf h by (simp add: hm_wf_def)
  have "map fst ?b = map fst (take j ?b) @ fst (?b ! j) # map fst (drop (Suc j) ?b)"
    using j by (subst id_take_nth_drop [OF j]) simp
  with db have dc: "distinct (map fst ?c)" by simp
  have place: "hashy hf t (fst e) = int i"
    if "i < length (m_buckets t)" "e \<in> set ((m_buckets t)[?h := ?c] ! i)" for i e
  proof (cases "i = ?h")
    case True
    with that h sub have "e \<in> set ?b" by auto
    from wf_place [OF wf h this] True show ?thesis by simp
  next
    case False
    with that have "e \<in> set (m_buckets t ! i)" by simp
    from wf_place [OF wf that(1) this] show ?thesis .
  qed
  have dist: "distinct (map fst b)" if "b \<in> set ((m_buckets t)[?h := ?c])" for b
  proof -
    from that have "b = ?c \<or> b \<in> set (m_buckets t)"
      using set_update_subset_insert [of "m_buckets t" ?h ?c] by auto
    then show ?thesis
    proof
      assume "b = ?c"
      with dc show ?thesis by simp
    next
      assume "b \<in> set (m_buckets t)"
      with wf show ?thesis by (simp add: hm_wf_def)
    qed
  qed
  have c1: "1 \<le> m_capacity ?p" using wf by (simp add: hm_wf_def)
  have c2: "length (m_buckets ?p) = nat (m_capacity ?p)"
    using wf by (simp add: bs hm_wf_def)
  have c3: "\<forall>i < length (m_buckets ?p).
              \<forall>e \<in> set (m_buckets ?p ! i). hashy hf ?p (fst e) = int i"
    unfolding hy bs using place by simp
  have c4: "\<forall>b \<in> set (m_buckets ?p). distinct (map fst b)"
    unfolding bs using dist by blast
  show ?thesis
    unfolding hm_wf_def using c1 c2 c3 c4 by blast
qed

lemma erase_ok:
  assumes inv: "hm_inv hf t"
  shows "\<exists>t'. erase (Suc n) hf t k = Inr (containsKey hf t k, t') \<and> hm_inv hf t' \<and>
           bindings t' = (bindings t)(k := None) \<and>
           m_size t' = (if containsKey hf t k then m_size t - 1 else m_size t) \<and>
           m_capacity t' =
             (if containsKey hf t k \<and> 4 * (m_size t - 1) < m_capacity t
              then m_capacity t div 2 else m_capacity t)"
proof (cases "find_key (m_buckets t ! nat (hashy hf t k)) k")
  case None
  have wf: "hm_wf hf t" by (rule hm_inv_wf [OF inv])
  from None have nc: "\<not> containsKey hf t k"
    by (simp add: containsKey_def bucketIndex_def)
  with containsKey_bindings [OF wf, of k] have "bindings t k = None" by simp
  then have "(bindings t)(k := None) = bindings t" by (simp add: fun_upd_idem)
  with None nc inv show ?thesis by (simp add: erase_unfold)
next
  case (Some j)
  let ?p = "pop t (hashy hf t k) j"
  let ?e = "m_buckets t ! nat (hashy hf t k) ! j"
  have wf: "hm_wf hf t" by (rule hm_inv_wf [OF inv])
  have sz: "m_size t = int (length (entries t))" and ld: "4 * m_size t \<le> 3 * m_capacity t"
    using inv by (simp_all add: hm_inv_def)
  have cap: "1 \<le> m_capacity t" using wf by (simp add: hm_wf_def)
  from Some have c: "containsKey hf t k"
    by (simp add: containsKey_def bucketIndex_def)
  note pe = pop_entries [OF wf Some]
  have pwf: "hm_wf hf ?p" by (rule pop_wf [OF wf Some])
  have plen: "int (length (entries ?p)) = m_size t - 1"
    using pe(2) sz by simp
  have pos: "1 \<le> m_size t"
    using pe(3) sz by (cases "entries t") simp_all
  obtain v where e: "?e = (k, v)" using pe(4) by (cases ?e) simp
  have pb: "bindings ?p = (bindings t)(k := None)"
    by (rule bindings_removed [OF wf pwf, of k v]) (use pe(1,3) e in simp_all)
  have ll: "getLoadFactor ?p < DEF_LOW_BOUND \<longleftrightarrow> 4 * (m_size t - 1) < m_capacity t"
    using cap by (simp add: low_load)
  show ?thesis
  proof (cases "4 * (m_size t - 1) < m_capacity t")
    case shrink: True
    have c2: "2 \<le> m_capacity t" using shrink pos ld by presburger
    have half: "m_capacity ?p sdiv 2 = m_capacity t div 2"
      using cap by (simp add: sdiv_two)
    have h1: "1 \<le> m_capacity t div 2" using c2 by presburger
    have "4 * int (length (entries ?p)) \<le> 3 * (m_capacity t div 2)"
      unfolding plen using shrink c2 by presburger
    from resize_ok [OF pwf _ h1 this, of DOWN n] half
    obtain t' where t': "resize (Suc n) hf ?p DOWN = Inr t'" "hm_wf hf t'"
      "m_capacity t' = m_capacity t div 2" "m_size t' = int (length (entries ?p))"
      "m_size t' = int (length (entries t'))" "set (entries t') = set (entries ?p)"
      by (auto simp: UP_def DOWN_def)
    have er: "erase (Suc n) hf t k = Inr (True, t')"
      using Some shrink ll t'(1) by (simp add: erase_unfold)
    have inv': "hm_inv hf t'"
      unfolding hm_inv_def using t'(2,3,4,5) plen shrink c2 by presburger
    have b: "bindings t' = (bindings t)(k := None)"
      using bindings_same [OF pwf t'(2) t'(6)] pb by simp
    show ?thesis
      using c shrink er inv' b t'(3,4) plen by simp
  next
    case stay: False
    have er: "erase (Suc n) hf t k = Inr (True, ?p)"
      using Some stay ll by (simp add: erase_unfold)
    have inv': "hm_inv hf ?p"
      unfolding hm_inv_def using pwf plen ld by simp
    show ?thesis
      using c stay er inv' pb by simp
  qed
qed

lemma default_inv: "hm_inv hf HashMap_default"
  by (simp add: hm_inv_def hm_wf_def HashMap_default_def DEF_CAPACITY_def entries_def)

lemma insert_again:
  assumes inv: "hm_inv hf t" and absent: "\<not> containsKey hf t k"
  shows "\<exists>t1. insert_hm (Suc n) hf t k v1 = Inr (True, t1) \<and> hm_inv hf t1 \<and>
           containsKey hf t1 k \<and> at_hm hf t1 k = Inr v1"
proof -
  from insert_ok [OF inv, of n k v1] absent obtain t1 where
    t1: "insert_hm (Suc n) hf t k v1 = Inr (True, t1)" "hm_inv hf t1"
      "bindings t1 = (bindings t)(k \<mapsto> v1)"
    by auto
  have wf1: "hm_wf hf t1" by (rule hm_inv_wf [OF t1(2)])
  have "containsKey hf t1 k" by (simp add: containsKey_bindings [OF wf1] t1(3))
  moreover have "at_hm hf t1 k = Inr v1" by (simp add: at_bindings [OF wf1] t1(3))
  ultimately show ?thesis using t1(1,2) by blast
qed

lemma clear_effect:
  assumes wf: "hm_wf hf t"
  shows "m_buckets (clear t) = replicate (nat (m_capacity t)) []"
    and "m_size (clear t) = m_size t"
    and "m_capacity (clear t) = m_capacity t"
    and "\<not> containsKey hf (clear t) k"
proof -
  have len: "length (m_buckets t) = nat (m_capacity t)" using wf by (simp add: hm_wf_def)
  show b: "m_buckets (clear t) = replicate (nat (m_capacity t)) []"
    by (simp add: clear_all [OF len])
  show "m_size (clear t) = m_size t" by (simp add: clear_def)
  show c: "m_capacity (clear t) = m_capacity t" by (simp add: clear_def)
  have "nat (hashy hf (clear t) k) < nat (m_capacity t)"
    using hashy_range [of "clear t" hf k] wf c by (simp add: hm_wf_def)
  then show "\<not> containsKey hf (clear t) k"
    by (simp add: containsKey_def bucketIndex_def b)
qed

lemma apply_op_ok:
  assumes inv: "hm_inv hf t"
  shows "\<exists>b t'. apply_op (Suc n) hf t x = Inr (b, t') \<and> hm_inv hf t' \<and>
           bindings t' = abs_apply (bindings t) x"
proof (cases x)
  case (Insert k v)
  have wf: "hm_wf hf t" by (rule hm_inv_wf [OF inv])
  from insert_ok [OF inv, of n k v] Insert show ?thesis
    by (auto simp: containsKey_bindings [OF wf])
next
  case (Erase k)
  from erase_ok [OF inv, of n k] Erase show ?thesis by auto
qed

lemma run_ok:
  "hm_inv hf t \<Longrightarrow>
   \<exists>t'. run (Suc n) hf t ops = Inr t' \<and> hm_inv hf t' \<and>
        bindings t' = foldl abs_apply (bindings t) ops"
proof (induction ops arbitrary: t)
  case Nil
  then show ?case by simp
next
  case (Cons x xs)
  from apply_op_ok [OF Cons.prems, of n x] obtain b t1 where
    t1: "apply_op (Suc n) hf t x = Inr (b, t1)" "hm_inv hf t1"
      "bindings t1 = abs_apply (bindings t) x"
    by blast
  from Cons.IH [OF t1(2)] obtain t' where
    "run (Suc n) hf t1 xs = Inr t'" "hm_inv hf t'"
    "bindings t' = foldl abs_apply (bindings t1) xs"
    by blast
  with t1 show ?case by simp
qed

lemma pow2_double: "is_pow2 c \<Longrightarrow> is_pow2 (2 * c)"
proof -
  assume "is_pow2 c"
  then obtain j :: nat where "c = 2 ^ j" by (auto simp: is_pow2_def)
  then have "2 * c = 2 ^ Suc j" by simp
  then show ?thesis unfolding is_pow2_def by blast
qed

lemma pow2_half: "is_pow2 c \<Longrightarrow> 2 \<le> c \<Longrightarrow> is_pow2 (c div 2)"
proof -
  assume "is_pow2 c" and c2: "2 \<le> c"
  then obtain j :: nat where j: "c = 2 ^ j" by (auto simp: is_pow2_def)
  with c2 have "j \<noteq> 0" by (cases j) auto
  then obtain i where "j = Suc i" by (cases j) auto
  with j have "c div 2 = 2 ^ i" by simp
  then show ?thesis unfolding is_pow2_def by blast
qed

lemma pow2_pos: "is_pow2 c \<Longrightarrow> 1 \<le> c"
  by (auto simp: is_pow2_def)

lemma apply_op_reach:
  assumes r: "reach_inv hf t"
  shows "\<exists>b t'. apply_op (Suc n) hf t x = Inr (b, t') \<and> reach_inv hf t'"
proof -
  have inv: "hm_inv hf t" and p2: "is_pow2 (m_capacity t)"
    and low: "m_capacity t \<le> 16 \<or> m_capacity t \<le> 4 * m_size t"
    using r by (simp_all add: reach_inv_def)
  have ld: "4 * m_size t \<le> 3 * m_capacity t" using inv by (simp add: hm_inv_def)
  have c1: "1 \<le> m_capacity t" by (rule pow2_pos [OF p2])
  show ?thesis
  proof (cases x)
    case (Insert k v)
    from insert_ok [OF inv, of n k v] obtain t' where t':
      "insert_hm (Suc n) hf t k v = Inr (\<not> containsKey hf t k, t')" "hm_inv hf t'"
      "m_size t' = (if containsKey hf t k then m_size t else m_size t + 1)"
      "m_capacity t' =
         (if \<not> containsKey hf t k \<and> 3 * m_capacity t < 4 * (m_size t + 1)
          then 2 * m_capacity t else m_capacity t)"
      by blast
    have "is_pow2 (m_capacity t')"
      using t'(4) p2 pow2_double [OF p2] by simp
    moreover have "m_capacity t' \<le> 16 \<or> m_capacity t' \<le> 4 * m_size t'"
      unfolding t'(3,4) using low c1
      by (cases "containsKey hf t k"; cases "3 * m_capacity t < 4 * (m_size t + 1)") auto
    ultimately have "reach_inv hf t'" using t'(2) by (simp add: reach_inv_def)
    with t'(1) Insert show ?thesis by auto
  next
    case (Erase k)
    from erase_ok [OF inv, of n k] obtain t' where t':
      "erase (Suc n) hf t k = Inr (containsKey hf t k, t')" "hm_inv hf t'"
      "m_size t' = (if containsKey hf t k then m_size t - 1 else m_size t)"
      "m_capacity t' =
         (if containsKey hf t k \<and> 4 * (m_size t - 1) < m_capacity t
          then m_capacity t div 2 else m_capacity t)"
      by blast
    have c1': "1 \<le> m_capacity t'" using t'(2) by (simp add: hm_inv_def hm_wf_def)
    have "is_pow2 (m_capacity t')"
    proof (cases "containsKey hf t k \<and> 4 * (m_size t - 1) < m_capacity t")
      case True
      with t'(4) have "m_capacity t' = m_capacity t div 2" by simp
      with c1' have "2 \<le> m_capacity t" by presburger
      from pow2_half [OF p2 this] True t'(4) show ?thesis by simp
    next
      case False
      with t'(4) p2 show ?thesis by auto
    qed
    moreover have "m_capacity t' \<le> 16 \<or> m_capacity t' \<le> 4 * m_size t'"
      unfolding t'(3,4) using low c1
      by (cases "containsKey hf t k"; cases "4 * (m_size t - 1) < m_capacity t") auto
    ultimately have "reach_inv hf t'" using t'(2) by (simp add: reach_inv_def)
    with t'(1) Erase show ?thesis by auto
  qed
qed

lemma run_reach:
  "reach_inv hf t \<Longrightarrow> \<exists>t'. run (Suc n) hf t ops = Inr t' \<and> reach_inv hf t'"
proof (induction ops arbitrary: t)
  case Nil
  then show ?case by simp
next
  case (Cons x xs)
  from apply_op_reach [OF Cons.prems, of n x] obtain b t1 where
    t1: "apply_op (Suc n) hf t x = Inr (b, t1)" "reach_inv hf t1"
    by blast
  from Cons.IH [OF t1(2)] obtain t' where "run (Suc n) hf t1 xs = Inr t'" "reach_inv hf t'"
    by blast
  with t1 show ?case by simp
qed

lemma default_reach: "reach_inv hf HashMap_default"
proof -
  have "(16::int) = 2 ^ 4" by simp
  then have "is_pow2 16" unfolding is_pow2_def by blast
  then show ?thesis
    using default_inv [of hf]
    by (simp add: reach_inv_def HashMap_default_def DEF_CAPACITY_def)
qed

lemma default_bindings: "bindings HashMap_default = Map.empty"
  by (simp add: bindings_def entries_def HashMap_default_def)

lemma abs_apply_keeps:
  "m k = Some v \<Longrightarrow> Erase k \<notin> set post \<Longrightarrow> foldl abs_apply m post k = Some v"
proof (induction post arbitrary: m)
  case Nil
  then show ?case by simp
next
  case (Cons x xs)
  have "abs_apply m x k = Some v"
    using Cons.prems by (cases x) auto
  from Cons.IH [of "abs_apply m x", OF this] Cons.prems(2) show ?case by simp
qed

lemma insert_new_sc:
  assumes inv: "hm_inv hf t" and new: "bindings t k = None"
  shows "\<exists>t'. insert_hm (Suc n) hf t k v = Inr (True, t') \<and> hm_inv hf t' \<and>
           bindings t' = (bindings t)(k \<mapsto> v) \<and>
           (m_size t', m_capacity t') = grow (m_size t, m_capacity t)"
proof -
  have "\<not> containsKey hf t k"
    using new containsKey_bindings [OF hm_inv_wf [OF inv], of k] by simp
  with insert_ok [OF inv, of n k v] show ?thesis
    by (auto simp: grow_def)
qed

lemma erase_old_sc:
  assumes inv: "hm_inv hf t" and old: "bindings t k \<noteq> None"
  shows "\<exists>t'. erase (Suc n) hf t k = Inr (True, t') \<and> hm_inv hf t' \<and>
           bindings t' = (bindings t)(k := None) \<and>
           (m_size t', m_capacity t') = shrink (m_size t, m_capacity t)"
proof -
  have "containsKey hf t k"
    using old containsKey_bindings [OF hm_inv_wf [OF inv], of k] by simp
  with erase_ok [OF inv, of n k] show ?thesis
    by (auto simp: shrink_def)
qed

lemma run_inserts:
  assumes "hm_inv hf t" "distinct ks" "length vs = length ks"
    "set ks \<inter> dom (bindings t) = {}"
  shows "\<exists>t'. run (Suc n) hf t (map2 Insert ks vs) = Inr t' \<and> hm_inv hf t' \<and>
           dom (bindings t') = dom (bindings t) \<union> set ks \<and>
           (m_size t', m_capacity t') = (grow ^^ length ks) (m_size t, m_capacity t)"
  using assms
proof (induction ks arbitrary: vs t)
  case Nil
  then show ?case by simp
next
  case (Cons k ks)
  from Cons.prems(3) obtain v vs' where vs: "vs = v # vs'" "length vs' = length ks"
    by (cases vs) auto
  from Cons.prems(4) have new: "bindings t k = None" by auto
  from insert_new_sc [OF Cons.prems(1) new, of n v] obtain t1 where t1:
    "insert_hm (Suc n) hf t k v = Inr (True, t1)" "hm_inv hf t1"
    "bindings t1 = (bindings t)(k \<mapsto> v)"
    "(m_size t1, m_capacity t1) = grow (m_size t, m_capacity t)"
    by blast
  have d: "distinct ks" and kn: "k \<notin> set ks" using Cons.prems(2) by simp_all
  have disj: "set ks \<inter> dom (bindings t1) = {}"
    using Cons.prems(4) kn by (auto simp: t1(3))
  from Cons.IH [OF t1(2) d vs(2) disj] obtain t' where t':
    "run (Suc n) hf t1 (map2 Insert ks vs') = Inr t'" "hm_inv hf t'"
    "dom (bindings t') = dom (bindings t1) \<union> set ks"
    "(m_size t', m_capacity t') = (grow ^^ length ks) (m_size t1, m_capacity t1)"
    by blast
  have r: "run (Suc n) hf t (map2 Insert (k # ks) vs) = Inr t'"
    using vs(1) t1(1) t'(1) by simp
  have dm: "dom (bindings t') = dom (bindings t) \<union> set (k # ks)"
    using t'(3) by (auto simp: t1(3))
  have sc: "(m_size t', m_capacity t') = (grow ^^ length (k # ks)) (m_size t, m_capacity t)"
    using t'(4) t1(4) by (simp add: funpow_swap1)
  from r t'(2) dm sc show ?case by blast
qed

lemma run_erases:
  assumes "hm_inv hf t" "distinct es" "set es \<subseteq> dom (bindings t)"
  shows "\<exists>t'. run (Suc n) hf t (map Erase es) = Inr t' \<and> hm_inv hf t' \<and>
           dom (bindings t') = dom (bindings t) - set es \<and>
           (m_size t', m_capacity t') = (shrink ^^ length es) (m_size t, m_capacity t)"
  using assms
proof (induction es arbitrary: t)
  case Nil
  then show ?case by simp
next
  case (Cons k es)
  from Cons.prems(3) have old: "bindings t k \<noteq> None" by auto
  from erase_old_sc [OF Cons.prems(1) old, of n] obtain t1 where t1:
    "erase (Suc n) hf t k = Inr (True, t1)" "hm_inv hf t1"
    "bindings t1 = (bindings t)(k := None)"
    "(m_size t1, m_capacity t1) = shrink (m_size t, m_capacity t)"
    by blast
  have d: "distinct es" and kn: "k \<notin> set es" using Cons.prems(2) by simp_all
  have sub: "set es \<subseteq> dom (bindings t1)"
    using Cons.prems(3) kn by (auto simp: t1(3))
  from Cons.IH [OF t1(2) d sub] obtain t' where t':
    "run (Suc n) hf t1 (map Erase es) = Inr t'" "hm_inv hf t'"
    "dom (bindings t') = dom (bindings t1) - set es"
    "(m_size t', m_capacity t') = (shrink ^^ length es) (m_size t1, m_capacity t1)"
    by blast
  have r: "run (Suc n) hf t (map Erase (k # es)) = Inr t'"
    using t1(1) t'(1) by simp
  have dm: "dom (bindings t') = dom (bindings t) - set (k # es)"
    using t'(3) by (auto simp: t1(3))
  have sc: "(m_size t', m_capacity t') = (shrink ^^ length (k # es)) (m_size t, m_capacity t)"
    using t'(4) t1(4) by (simp add: funpow_swap1)
  from r t'(2) dm sc show ?case by blast
qed

lemma grow_13: "(grow ^^ 13) (0, 16) = (13, 32)"
  by code_simp

lemma shrink_11: "(shrink ^^ 11) (13, 32) = (2, 8)"
  by code_simp

lemma scenario_13_11:
  assumes "distinct ks" "length ks = 13" "length vs = 13"
    "distinct es" "set es \<subseteq> set ks" "length es = 11"
  shows "\<exists>t32 t8. run (Suc n) hf HashMap_default (map2 Insert ks vs) = Inr t32 \<and>
           capacity t32 = 32 \<and> size_hm t32 = 13 \<and>
           run (Suc n) hf t32 (map Erase es) = Inr t8 \<and>
           capacity t8 = 8 \<and> size_hm t8 = 2"
proof -
  have e: "set ks \<inter> dom (bindings (HashMap_default :: ('a, 'b) HashMap)) = {}"
    by (simp add: default_bindings)
  have l: "length vs = length ks" using assms(2,3) by simp
  have sc0: "(m_size (HashMap_default :: ('a, 'b) HashMap),
              m_capacity (HashMap_default :: ('a, 'b) HashMap)) = (0, 16)"
    by (simp add: HashMap_default_def DEF_CAPACITY_def)
  from run_inserts [OF default_inv assms(1) l e, where hf = hf and n = n] obtain t32 where t32:
    "run (Suc n) hf HashMap_default (map2 Insert ks vs) = Inr t32" "hm_inv hf t32"
    "dom (bindings t32) = set ks"
    "(m_size t32, m_capacity t32) = (13, 32)"
    unfolding sc0 assms(2) grow_13 by (auto simp: default_bindings)
  have sub: "set es \<subseteq> dom (bindings t32)" using assms(5) t32(3) by simp
  from run_erases [OF t32(2) assms(4) sub, where n = n] obtain t8 where t8:
    "run (Suc n) hf t32 (map Erase es) = Inr t8"
    "(m_size t8, m_capacity t8) = (2, 8)"
    unfolding t32(4) assms(6) shrink_11 by auto
  from t32(1,4) t8 show ?thesis by (auto simp: capacity_def size_hm_def)
qed

lemma reach_load:
  assumes "reach_inv hf t"
  shows "getLoadFactor t \<le> DEF_HIGH_BOUND"
    and "DEF_LOW_BOUND \<le> getLoadFactor t \<or> capacity t \<le> 16"
proof -
  have inv: "hm_inv hf t" and low: "m_capacity t \<le> 16 \<or> m_capacity t \<le> 4 * m_size t"
    using assms by (simp_all add: reach_inv_def)
  have c: "0 < m_capacity t" and ld: "4 * m_size t \<le> 3 * m_capacity t"
    using inv by (simp_all add: hm_inv_def hm_wf_def)
  from ld high_load [OF c] show "getLoadFactor t \<le> DEF_HIGH_BOUND"
    by (simp add: not_less [symmetric])
  from low low_load [OF c] show "DEF_LOW_BOUND \<le> getLoadFactor t \<or> capacity t \<le> 16"
    by (auto simp: not_less [symmetric] capacity_def)
qed

lemma first_from_props:
  "0 \<le> i \<Longrightarrow> i \<le> m_capacity t \<Longrightarrow>
   i \<le> first_from t i \<and> first_from t i \<le> m_capacity t \<and>
   (\<forall>j. i \<le> j \<and> j < first_from t i \<longrightarrow> m_buckets t ! nat j = []) \<and>
   (first_from t i < m_capacity t \<longrightarrow> m_buckets t ! nat (first_from t i) \<noteq> [])"
proof (induction t i rule: first_from.induct)
  case (1 t i)
  show ?case
  proof (cases "i < m_capacity t")
    case False
    then have "first_from t i = m_capacity t" by (subst first_from.simps) simp
    with False 1(3) show ?thesis by auto
  next
    case True
    show ?thesis
    proof (cases "m_buckets t ! nat i \<noteq> []")
      case ne: True
      with True have "first_from t i = i" by (subst first_from.simps) simp
      with True ne show ?thesis by auto
    next
      case e: False
      with True have eq: "first_from t i = first_from t (i + 1)"
        by (subst first_from.simps) simp
      from 1(1) [OF True e] 1(2) True have
        ih: "i + 1 \<le> first_from t (i + 1)" "first_from t (i + 1) \<le> m_capacity t"
          "\<forall>j. i + 1 \<le> j \<and> j < first_from t (i + 1) \<longrightarrow> m_buckets t ! nat j = []"
          "first_from t (i + 1) < m_capacity t \<longrightarrow> m_buckets t ! nat (first_from t (i + 1)) \<noteq> []"
        by simp_all
      have "m_buckets t ! nat j = []" if "i \<le> j" "j < first_from t (i + 1)" for j
      proof (cases "j = i")
        case True
        with e show ?thesis by simp
      next
        case False
        with that ih(3) show ?thesis by simp
      qed
      with ih(1,2,4) show ?thesis unfolding eq by auto
    qed
  qed
qed

lemma concat_empty_prefix:
  "f \<le> length bs \<Longrightarrow> (\<forall>j < f. bs ! j = []) \<Longrightarrow> concat bs = concat (drop f bs)"
proof -
  assume f: "f \<le> length bs" and e: "\<forall>j < f. bs ! j = []"
  have "\<forall>b \<in> set (take f bs). b = []"
    using f e by (auto simp: in_set_conv_nth)
  then have "concat (take f bs) = []" by simp
  moreover have "concat bs = concat (take f bs) @ concat (drop f bs)"
    by (simp flip: concat_append)
  ultimately show ?thesis by simp
qed

lemma traverse_within_bucket:
  assumes cap: "1 \<le> m_capacity t" and len: "length (m_buckets t) = nat (m_capacity t)"
    and i: "i < length (m_buckets t)"
    and tail: "traverse_from t (next_bucket t \<lparr>it_pos = length (m_buckets t ! i), it_index = int i\<rparr>)
               = Inr (concat (drop (Suc i) (m_buckets t)))"
    and p: "p \<le> length (m_buckets t ! i)"
  shows "traverse_from t (next_bucket t \<lparr>it_pos = p, it_index = int i\<rparr>)
         = Inr (drop p (m_buckets t ! i) @ concat (drop (Suc i) (m_buckets t)))"
  using p
proof (induction "length (m_buckets t ! i) - p" arbitrary: p)
  case 0
  then have "p = length (m_buckets t ! i)" by simp
  with tail show ?case by simp
next
  case (Suc d)
  let ?b = "m_buckets t ! i"
  let ?it = "\<lparr>it_pos = p, it_index = int i\<rparr>"
  from Suc(2) have pl: "p < length ?b" by simp
  have nb: "next_bucket t ?it = ?it"
    using pl by (subst next_bucket.simps) simp
  have ne: "\<not> it_eq ?it (end_hm t)"
  proof
    assume "it_eq ?it (end_hm t)"
    then have "int i = m_capacity t - 1" "p = length (m_buckets t ! nat (m_capacity t - 1))"
      by (simp_all add: it_eq_def end_hm_def)
    from this(1) [symmetric] this(2) have "p = length ?b" by simp
    with pl show False by simp
  qed
  have el: "on_element t ?it"
    using i pl by (simp add: on_element_def)
  have ih: "traverse_from t (next_bucket t \<lparr>it_pos = Suc p, it_index = int i\<rparr>)
         = Inr (drop (Suc p) ?b @ concat (drop (Suc i) (m_buckets t)))"
    using Suc(1) [of "Suc p"] Suc(2) pl by simp
  have step: "traverse_from t ?it
        = Inr (deref t ?it # drop (Suc p) ?b @ concat (drop (Suc i) (m_buckets t)))"
    using ne el ih by (subst traverse_from.simps) (simp add: incr_def)
  have "drop p ?b = deref t ?it # drop (Suc p) ?b"
    using pl by (simp add: deref_def Cons_nth_drop_Suc)
  with step show ?case by (simp add: nb)
qed

lemma traverse_bucket_end:
  assumes cap: "1 \<le> m_capacity t" and len: "length (m_buckets t) = nat (m_capacity t)"
    and i: "i < length (m_buckets t)"
  shows "traverse_from t (next_bucket t \<lparr>it_pos = length (m_buckets t ! i), it_index = int i\<rparr>)
         = Inr (concat (drop (Suc i) (m_buckets t)))"
  using i
proof (induction "length (m_buckets t) - Suc i" arbitrary: i)
  case 0
  let ?it = "\<lparr>it_pos = length (m_buckets t ! i), it_index = int i\<rparr>"
  from 0 have last: "Suc i = length (m_buckets t)" by simp
  then have ii: "int i = m_capacity t - 1" using len cap by simp
  have nb: "next_bucket t ?it = ?it"
    using ii by (subst next_bucket.simps) simp
  have "nat (m_capacity t - 1) = i" using ii by simp
  then have "it_eq ?it (end_hm t)"
    using ii by (simp add: it_eq_def end_hm_def)
  then have "traverse_from t ?it = Inr []"
    by (subst traverse_from.simps) simp
  with last show ?case by (simp add: nb)
next
  case (Suc d)
  let ?it = "\<lparr>it_pos = length (m_buckets t ! i), it_index = int i\<rparr>"
  from Suc(2) have i1: "Suc i < length (m_buckets t)" by simp
  then have lt: "int i < m_capacity t - 1" using len by simp
  have nb: "next_bucket t ?it = next_bucket t \<lparr>it_pos = 0, it_index = int (Suc i)\<rparr>"
    using lt by (subst next_bucket.simps) (simp add: add.commute)
  have tail: "traverse_from t
        (next_bucket t \<lparr>it_pos = length (m_buckets t ! Suc i), it_index = int (Suc i)\<rparr>)
      = Inr (concat (drop (Suc (Suc i)) (m_buckets t)))"
    using Suc(1) [of "Suc i"] Suc(2) i1 by simp
  from traverse_within_bucket [OF cap len i1 tail, of 0]
  have "traverse_from t (next_bucket t \<lparr>it_pos = 0, it_index = int (Suc i)\<rparr>)
      = Inr (m_buckets t ! Suc i @ concat (drop (Suc (Suc i)) (m_buckets t)))"
    by simp
  also have "m_buckets t ! Suc i @ concat (drop (Suc (Suc i)) (m_buckets t))
      = concat (drop (Suc i) (m_buckets t))"
    using i1 by (simp flip: Cons_nth_drop_Suc)
  finally show ?case by (simp only: nb)
qed

lemma traverse_entries:
  assumes cap: "1 \<le> m_capacity t" and len: "length (m_buckets t) = nat (m_capacity t)"
  shows "traverse t = Inr (entries t)"
proof -
  from first_from_props [of 0 t] cap have
    f: "0 \<le> first t" "first t \<le> m_capacity t"
      "\<forall>j. 0 \<le> j \<and> j < first t \<longrightarrow> m_buckets t ! nat j = []"
      "first t < m_capacity t \<longrightarrow> m_buckets t ! nat (first t) \<noteq> []"
    by (simp_all add: first_def)
  have pre: "\<forall>j < nat (first t). m_buckets t ! j = []"
  proof (intro allI impI)
    fix j assume "j < nat (first t)"
    with f(3) [rule_format, of "int j"] show "m_buckets t ! j = []" by simp
  qed
  have fl: "nat (first t) \<le> length (m_buckets t)" using f(2) len by simp
  have e: "entries t = concat (drop (nat (first t)) (m_buckets t))"
    unfolding entries_def by (rule concat_empty_prefix [OF fl pre])
  show ?thesis
  proof (cases "first t = m_capacity t")
    case True
    then have "traverse t = traverse_from t (end_hm t)"
      by (simp add: traverse_def begin_hm_def)
    also have "\<dots> = Inr []"
      by (subst traverse_from.simps) (simp add: it_eq_def)
    finally show ?thesis using e True len by simp
  next
    case False
    let ?i = "nat (first t)"
    let ?it = "\<lparr>it_pos = 0, it_index = first t\<rparr>"
    have ii: "int ?i = first t" using f(1) by simp
    from False f have lt: "first t < m_capacity t" by simp
    then have i: "?i < length (m_buckets t)" using len f(1) by simp
    from f(4) lt have ne: "m_buckets t ! ?i \<noteq> []" by simp
    have b: "begin_hm t = ?it"
      using False f(1) by (simp add: begin_hm_def)
    have nb: "next_bucket t ?it = ?it"
      using ne by (subst next_bucket.simps) auto
    from traverse_within_bucket [OF cap len i traverse_bucket_end [OF cap len i], of 0]
    have "traverse_from t ?it = Inr (m_buckets t ! ?i @ concat (drop (Suc ?i) (m_buckets t)))"
      unfolding ii by (simp add: nb)
    also have "m_buckets t ! ?i @ concat (drop (Suc ?i) (m_buckets t))
        = concat (drop ?i (m_buckets t))"
      using i by (simp flip: Cons_nth_drop_Suc)
    finally show ?thesis by (simp add: traverse_def b e)
  qed
qed

lemma begin_end_empty:
  assumes cap: "1 \<le> m_capacity t" and len: "length (m_buckets t) = nat (m_capacity t)"
    and e: "entries t = []"
  shows "it_eq (begin_hm t) (end_hm t)"
proof -
  from first_from_props [of 0 t] cap have
    f: "0 \<le> first t" "first t \<le> m_capacity t"
      "first t < m_capacity t \<longrightarrow> m_buckets t ! nat (first t) \<noteq> []"
    by (simp_all add: first_def)
  have "first t = m_capacity t"
  proof (rule ccontr)
    assume "first t \<noteq> m_capacity t"
    with f have lt: "first t < m_capacity t" and ne: "m_buckets t ! nat (first t) \<noteq> []"
      by simp_all
    from lt f(1) len have "m_buckets t ! nat (first t) \<in> set (m_buckets t)" by simp
    with e have "m_buckets t ! nat (first t) = []" by (simp add: entries_def)
    with ne show False by simp
  qed
  then show ?thesis by (simp add: begin_hm_def it_eq_def)
qed

lemma eq_loop_traverse:
  "traverse_from other i = Inr ps \<Longrightarrow> eq_loop hf this other i = eq_list hf this ps"
proof (induction other i arbitrary: ps rule: traverse_from.induct)
  case (1 t i)
  show ?case
  proof (cases "it_eq i (end_hm t)")
    case True
    with 1(2) have "ps = []" by (subst (asm) traverse_from.simps) simp
    with True show ?thesis by (subst eq_loop.simps) simp
  next
    case False
    with 1(2) have el: "on_element t i"
      by (subst (asm) traverse_from.simps) (auto split: if_splits)
    from 1(2) False el obtain ps' where ps':
      "traverse_from t (incr t i) = Inr ps'" "ps = deref t i # ps'"
      by (subst (asm) traverse_from.simps) (auto split: sum.splits)
    have ih: "eq_loop hf this t (incr t i) = eq_list hf this ps'"
      using 1(1) [OF False _ ps'(1)] el by simp
    show ?thesis
      using False el ih ps'(2)
      by (subst eq_loop.simps) (simp split: sum.splits error.splits)
  qed
qed

lemma eq_list_bindings:
  "hm_wf hf this \<Longrightarrow>
   eq_list hf this ps = Inr (\<forall>p \<in> set ps. bindings this (fst p) = Some (snd p))"
  by (induction ps) (auto simp: at_bindings split: option.splits)

lemma equals_bindings:
  assumes a: "hm_wf hf a" and b: "hm_wf hf b"
  shows "equals hf a b =
         Inr (m_size a = m_size b \<and> (\<forall>p \<in> set (entries b). bindings a (fst p) = Some (snd p)))"
proof -
  have cap: "1 \<le> m_capacity b" and len: "length (m_buckets b) = nat (m_capacity b)"
    using b by (simp_all add: hm_wf_def)
  from traverse_entries [OF cap len]
  have "traverse_from b (begin_hm b) = Inr (entries b)" by (simp add: traverse_def)
  from eq_loop_traverse [OF this, of hf a] eq_list_bindings [OF a, of "entries b"]
  show ?thesis by (simp add: equals_def)
qed

lemma size_card:
  assumes "hm_inv hf t"
  shows "m_size t = int (card (dom (bindings t)))"
proof -
  have d: "distinct (map fst (entries t))" by (rule wf_distinct [OF hm_inv_wf [OF assms]])
  have "dom (bindings t) = set (map fst (entries t))"
    by (simp add: bindings_def dom_map_of_conv_image_fst)
  then have "card (dom (bindings t)) = length (entries t)"
    using distinct_card [OF d] by simp
  with assms show ?thesis by (simp add: hm_inv_def)
qed

lemma map_le_card_eq:
  assumes le: "m \<subseteq>\<^sub>m m'" and fin: "finite (dom m')" and c: "card (dom m) = card (dom m')"
  shows "m = m'"
proof -
  have sub: "dom m \<subseteq> dom m'" by (rule map_le_implies_dom_le [OF le])
  from card_subset_eq [OF fin sub c] have d: "dom m = dom m'" .
  show ?thesis by (rule map_le_antisym [OF le]) (use le d in \<open>auto simp: map_le_def\<close>)
qed

lemma entries_map_le:
  assumes b: "hm_wf hf b"
  shows "(\<forall>p \<in> set (entries b). bindings a (fst p) = Some (snd p)) \<longleftrightarrow> bindings b \<subseteq>\<^sub>m bindings a"
proof
  assume l: "\<forall>p \<in> set (entries b). bindings a (fst p) = Some (snd p)"
  show "bindings b \<subseteq>\<^sub>m bindings a"
    unfolding map_le_def
  proof
    fix k assume "k \<in> dom (bindings b)"
    then obtain v where v: "bindings b k = Some v" by auto
    then have "(k, v) \<in> set (entries b)" by (simp add: bindings_Some [OF b])
    with l have "bindings a k = Some v" by fastforce
    with v show "bindings b k = bindings a k" by simp
  qed
next
  assume r: "bindings b \<subseteq>\<^sub>m bindings a"
  show "\<forall>p \<in> set (entries b). bindings a (fst p) = Some (snd p)"
  proof
    fix p assume "p \<in> set (entries b)"
    then have "bindings b (fst p) = Some (snd p)"
      using bindings_Some [OF b, of "fst p" "snd p"] by simp
    with r show "bindings a (fst p) = Some (snd p)"
      by (metis domI map_le_def)
  qed
qed

lemma equals_iff_bindings:
  assumes a: "hm_inv hf a" and b: "hm_inv hf b"
  shows "equals hf a b = Inr (bindings a = bindings b)"
proof -
  have fin: "finite (dom (bindings a))" by (simp add: bindings_def finite_dom_map_of)
  have "m_size a = m_size b \<and> bindings b \<subseteq>\<^sub>m bindings a \<longleftrightarrow> bindings a = bindings b"
  proof
    assume h: "m_size a = m_size b \<and> bindings b \<subseteq>\<^sub>m bindings a"
    then have "card (dom (bindings b)) = card (dom (bindings a))"
      using size_card [OF a] size_card [OF b] by simp
    from map_le_card_eq [OF _ fin this] h show "bindings a = bindings b" by simp
  next
    assume "bindings a = bindings b"
    then show "m_size a = m_size b \<and> bindings b \<subseteq>\<^sub>m bindings a"
      using size_card [OF a] size_card [OF b] by simp
  qed
  then show ?thesis
    using equals_bindings [OF hm_inv_wf [OF a] hm_inv_wf [OF b]]
      entries_map_le [OF hm_inv_wf [OF b], of a]
    by simp
qed

lemma at_eq_iff:
  assumes a: "hm_wf hf a" and b: "hm_wf hf b"
  shows "at_hm hf b k = at_hm hf a k \<longleftrightarrow> bindings b k = bindings a k"
  by (simp add: at_bindings [OF a] at_bindings [OF b] split: option.splits)

lemma map_of_update_found:
  "find_key b k = Some i \<Longrightarrow> map_of (b[i := (k, v)]) = (map_of b)(k \<mapsto> v)"
proof (induction b arbitrary: i)
  case Nil
  then show ?case by simp
next
  case (Cons e es)
  show ?case
  proof (cases "fst e = k")
    case True
    with Cons.prems have "i = 0" by simp
    with True show ?thesis by (cases e) auto
  next
    case False
    with Cons.prems obtain j where j: "find_key es k = Some j" "i = Suc j" by auto
    from Cons.IH [OF j(1)] False j(2) show ?thesis
      by (cases e) (auto simp: fun_upd_twist)
  qed
qed

lemma store_ok:
  assumes wf: "hm_wf hf t" and f: "find_key (m_buckets t ! nat (hashy hf t k)) k = Some i"
  shows "hm_wf hf (store t (hashy hf t k, i) v)"
    and "bindings (store t (hashy hf t k, i) v) = (bindings t)(k \<mapsto> v)"
    and "m_size (store t (hashy hf t k, i) v) = m_size t"
    and "m_capacity (store t (hashy hf t k, i) v) = m_capacity t"
    and "length (entries (store t (hashy hf t k, i) v)) = length (entries t)"
proof -
  let ?h = "nat (hashy hf t k)"
  let ?b = "m_buckets t ! ?h"
  let ?c = "?b[i := (k, v)]"
  let ?s = "store t (hashy hf t k, i) v"
  have h: "?h < length (m_buckets t)" by (rule hashy_nat_range [OF wf])
  have h0: "int ?h = hashy hf t k"
    using hashy_range [of t hf k] wf by (simp add: hm_wf_def)
  from find_key_Some [OF f] have i: "i < length ?b" and ki: "fst (?b ! i) = k" by simp_all
  have bs: "m_buckets ?s = (m_buckets t)[?h := ?c]"
    using ki by (simp add: store_def Let_def)
  show sz: "m_size ?s = m_size t" by (simp add: store_def Let_def)
  show cp: "m_capacity ?s = m_capacity t" by (simp add: store_def Let_def)
  have hy: "hashy hf ?s = hashy hf t"
    by (rule ext) (rule hashy_capacity [OF cp])
  have keys: "map fst ?c = map fst ?b"
    using ki i by (simp add: map_update list_update_same_conv)
  have place: "hashy hf t (fst e) = int j"
    if "j < length (m_buckets t)" "e \<in> set ((m_buckets t)[?h := ?c] ! j)" for j e
  proof (cases "j = ?h")
    case True
    with that h have "e \<in> set ?c" by simp
    then have "fst e \<in> set (map fst ?c)" by simp
    then have "fst e \<in> fst ` set ?b" unfolding keys by simp
    then obtain e' where e': "e' \<in> set ?b" "fst e' = fst e" by auto
    from wf_place [OF wf h e'(1)] e'(2) True show ?thesis by simp
  next
    case False
    with that have "e \<in> set (m_buckets t ! j)" by simp
    from wf_place [OF wf that(1) this] show ?thesis .
  qed
  have dist: "distinct (map fst b)" if "b \<in> set ((m_buckets t)[?h := ?c])" for b
  proof -
    from that have "b = ?c \<or> b \<in> set (m_buckets t)"
      using set_update_subset_insert [of "m_buckets t" ?h ?c] by auto
    then show ?thesis
    proof
      assume "b = ?c"
      moreover have "distinct (map fst ?b)" using wf h by (simp add: hm_wf_def)
      ultimately show ?thesis by (simp only: keys)
    next
      assume "b \<in> set (m_buckets t)"
      with wf show ?thesis by (simp add: hm_wf_def)
    qed
  qed
  have c1: "1 \<le> m_capacity ?s" using wf by (simp add: cp hm_wf_def)
  have c2: "length (m_buckets ?s) = nat (m_capacity ?s)"
    using wf by (simp add: bs cp hm_wf_def)
  have c3: "\<forall>j < length (m_buckets ?s).
              \<forall>e \<in> set (m_buckets ?s ! j). hashy hf ?s (fst e) = int j"
    unfolding hy bs using place by simp
  have c4: "\<forall>b \<in> set (m_buckets ?s). distinct (map fst b)"
    unfolding bs using dist by blast
  show wf': "hm_wf hf ?s"
    unfolding hm_wf_def using c1 c2 c3 c4 by blast
  show "bindings ?s = (bindings t)(k \<mapsto> v)"
  proof (rule ext)
    fix k'
    have l: "bindings ?s k' = map_of (m_buckets ?s ! nat (hashy hf t k')) k'"
      using wf_bucket_map_of [OF wf', of k'] by (simp add: hy)
    have r: "bindings t k' = map_of (m_buckets t ! nat (hashy hf t k')) k'"
      using wf_bucket_map_of [OF wf, of k'] by simp
    show "bindings ?s k' = ((bindings t)(k \<mapsto> v)) k'"
    proof (cases "nat (hashy hf t k') = ?h")
      case True
      with h have "m_buckets ?s ! nat (hashy hf t k') = ?c" by (simp add: bs)
      with l have 1: "bindings ?s k' = map_of ?c k'" by simp
      from r True have 2: "bindings t k' = map_of ?b k'" by simp
      show ?thesis
        unfolding 1 by (simp add: map_of_update_found [OF f] 2)
    next
      case False
      then have "k' \<noteq> k" by auto
      moreover from False have "m_buckets ?s ! nat (hashy hf t k') = m_buckets t ! nat (hashy hf t k')"
        by (simp add: bs)
      ultimately show ?thesis using l r by simp
    qed
  qed
  have e1: "entries ?s = concat (take ?h (m_buckets t)) @ ?c @ concat (drop (Suc ?h) (m_buckets t))"
    by (simp add: entries_def bs concat_update [OF h])
  have e2: "entries t = concat (take ?h (m_buckets t)) @ ?b @ concat (drop (Suc ?h) (m_buckets t))"
    unfolding entries_def by (rule concat_split [OF h])
  show "length (entries ?s) = length (entries t)"
    unfolding e1 e2 by simp
qed

lemma subscript_ok:
  assumes inv: "hm_inv hf t"
  shows "\<exists>t1 i. subscript (Suc n) hf a t k = Inr (t1, (hashy hf t1 k, i)) \<and> hm_inv hf t1 \<and>
           find_key (m_buckets t1 ! nat (hashy hf t1 k)) k = Some i \<and>
           bindings t1 = (if bindings t k = None then (bindings t)(k \<mapsto> a) else bindings t)"
proof -
  have wf: "hm_wf hf t" by (rule hm_inv_wf [OF inv])
  have "\<exists>b t1. (if \<not> containsKey hf t k then insert_hm (Suc n) hf t k a else Inr (False, t))
            = Inr (b, t1) \<and> hm_inv hf t1 \<and>
          bindings t1 = (if bindings t k = None then (bindings t)(k \<mapsto> a) else bindings t)"
  proof (cases "containsKey hf t k")
    case True
    with containsKey_bindings [OF wf, of k] have "bindings t k \<noteq> None" by simp
    with True inv show ?thesis
      by (intro exI [of _ False] exI [of _ t]) auto
  next
    case False
    with containsKey_bindings [OF wf, of k] have n: "bindings t k = None" by simp
    from insert_ok [OF inv, of n k a] False obtain t1 where
      "insert_hm (Suc n) hf t k a = Inr (True, t1)" "hm_inv hf t1"
      "bindings t1 = (bindings t)(k \<mapsto> a)"
      by auto
    with False n show ?thesis
      by (intro exI [of _ True] exI [of _ t1]) simp
  qed
  then obtain b t1 where t1:
    "(if \<not> containsKey hf t k then insert_hm (Suc n) hf t k a else Inr (False, t)) = Inr (b, t1)"
    "hm_inv hf t1"
    "bindings t1 = (if bindings t k = None then (bindings t)(k \<mapsto> a) else bindings t)"
    by blast
  have wf1: "hm_wf hf t1" by (rule hm_inv_wf [OF t1(2)])
  have "bindings t1 k \<noteq> None" by (simp add: t1(3))
  with find_key_bindings [OF wf1, of k] obtain i where
    i: "find_key (m_buckets t1 ! nat (hashy hf t1 k)) k = Some i"
    by auto
  have "subscript (Suc n) hf a t k = Inr (t1, (hashy hf t1 k, i))"
    unfolding subscript_def t1(1) by (simp add: Let_def i)
  with t1(2,3) i show ?thesis by blast
qed

lemma subscript_store_ok:
  assumes inv: "hm_inv hf t"
  shows "\<exists>t1 r. subscript (Suc n) hf a t k = Inr (t1, r) \<and> hm_inv hf (store t1 r v) \<and>
           bindings (store t1 r v) = (bindings t)(k \<mapsto> v)"
proof -
  from subscript_ok [OF inv, of n a k] obtain t1 i where t1:
    "subscript (Suc n) hf a t k = Inr (t1, (hashy hf t1 k, i))" "hm_inv hf t1"
    "find_key (m_buckets t1 ! nat (hashy hf t1 k)) k = Some i"
    "bindings t1 = (if bindings t k = None then (bindings t)(k \<mapsto> a) else bindings t)"
    by blast
  have wf1: "hm_wf hf t1" by (rule hm_inv_wf [OF t1(2)])
  note s = store_ok [OF wf1 t1(3), of v]
  have "hm_inv hf (store t1 (hashy hf t1 k, i) v)"
    unfolding hm_inv_def using s(1,3,4,5) t1(2) by (simp add: hm_inv_def)
  moreover have "bindings (store t1 (hashy hf t1 k, i) v) = (bindings t)(k \<mapsto> v)"
    unfolding s(2) t1(4) by simp
  ultimately show ?thesis using t1(1) by blast
qed

lemma from_loop_ok:
  "hm_inv hf t \<Longrightarrow> length ks = length vs \<Longrightarrow>
   \<exists>t'. from_loop (Suc n) hf a ks vs t = Inr t' \<and> hm_inv hf t' \<and>
        bindings t' = assign_all ks vs (bindings t)"
proof (induction ks arbitrary: vs t)
  case Nil
  then show ?case by (simp add: assign_all_def)
next
  case (Cons k ks)
  from Cons.prems(2) obtain v vs' where vs: "vs = v # vs'" "length ks = length vs'"
    by (cases vs) auto
  from subscript_store_ok [OF Cons.prems(1), of n a k v] obtain t1 r where t1:
    "subscript (Suc n) hf a t k = Inr (t1, r)" "hm_inv hf (store t1 r v)"
    "bindings (store t1 r v) = (bindings t)(k \<mapsto> v)"
    by blast
  from Cons.IH [OF t1(2) vs(2)] obtain t' where t':
    "from_loop (Suc n) hf a ks vs' (store t1 r v) = Inr t'" "hm_inv hf t'"
    "bindings t' = assign_all ks vs' (bindings (store t1 r v))"
    by blast
  have "from_loop (Suc n) hf a (k # ks) vs t = Inr t'"
    using vs(1) t1(1) t'(1) by simp
  moreover have "bindings t' = assign_all (k # ks) vs (bindings t)"
    using t'(3) t1(3) vs(1) by (simp add: assign_all_def)
  ultimately show ?case using t'(2) by blast
qed

lemma dom_assign_all:
  "length ks = length vs \<Longrightarrow> dom (assign_all ks vs m) = dom m \<union> set ks"
proof (induction ks arbitrary: vs m)
  case Nil
  then show ?case by (simp add: assign_all_def)
next
  case (Cons k ks)
  then obtain v vs' where vs: "vs = v # vs'" "length ks = length vs'"
    by (cases vs) auto
  have "assign_all (k # ks) vs m = assign_all ks vs' (m(k \<mapsto> v))"
    by (simp add: assign_all_def vs(1))
  then have "dom (assign_all (k # ks) vs m) = dom (m(k \<mapsto> v)) \<union> set ks"
    by (simp only: Cons.IH [OF vs(2)])
  then show ?case by simp
qed

lemma copy_loop_traverse:
  "traverse_from other i = Inr ps \<Longrightarrow> copy_loop n hf other i this = reinsert n hf ps this"
proof (induction other i arbitrary: ps this rule: traverse_from.induct)
  case (1 t i)
  show ?case
  proof (cases "it_eq i (end_hm t)")
    case True
    with 1(2) have "ps = []" by (subst (asm) traverse_from.simps) simp
    with True show ?thesis by (subst copy_loop.simps) simp
  next
    case False
    with 1(2) have el: "on_element t i"
      by (subst (asm) traverse_from.simps) (auto split: if_splits)
    from 1(2) False el obtain ps' where ps':
      "traverse_from t (incr t i) = Inr ps'" "ps = deref t i # ps'"
      by (subst (asm) traverse_from.simps) (auto split: sum.splits)
    have ih: "copy_loop n hf t (incr t i) s = reinsert n hf ps' s" for s
      using 1(1) [OF False _ ps'(1)] el by simp
    show ?thesis
      using False el ih ps'(2)
      by (subst copy_loop.simps) (simp split: sum.splits prod.splits)
  qed
qed

text \<open>
  \<open>operator=\<close>, the sibling of the copy constructor, does give a copy: on a source
  that satisfies the invariant it returns a table that satisfies the invariant, with the
  size, the capacity and the bindings of the source, which compares equal to it.
\<close>

lemma assign_ok:
  assumes inv: "hm_inv hf other"
  shows "\<exists>c. assign n hf this other = Inr c \<and> hm_inv hf c \<and>
           size_hm c = size_hm other \<and> capacity c = capacity other \<and>
           bindings c = bindings other \<and> equals hf c other = Inr True"
proof -
  have wf: "hm_wf hf other" by (rule hm_inv_wf [OF inv])
  have cap: "1 \<le> m_capacity other" and len: "length (m_buckets other) = nat (m_capacity other)"
    using wf by (simp_all add: hm_wf_def)
  have sz: "m_size other = int (length (entries other))"
    and ld: "4 * m_size other \<le> 3 * m_capacity other"
    using inv by (simp_all add: hm_inv_def)
  let ?t0 = "\<lparr>m_buckets = replicate (nat (m_capacity other)) [], m_size = 0,
              m_capacity = m_capacity other\<rparr> :: ('a, 'b) HashMap"
  have t0: "this\<lparr>m_size := 0, m_buckets := replicate (nat (m_capacity other)) [],
                 m_capacity := m_capacity other\<rparr> = ?t0"
    by simp
  from traverse_entries [OF cap len]
  have tr: "traverse_from other (begin_hm other) = Inr (entries other)"
    by (simp add: traverse_def)
  have a: "assign n hf this other = reinsert n hf (entries other) ?t0"
    unfolding assign_def t0 by (rule copy_loop_traverse [OF tr])
  have d: "distinct (map fst (entries other))" by (rule wf_distinct [OF wf])
  have "\<exists>s'. reinsert n hf (entries other) ?t0 = Inr s' \<and> hm_wf hf s' \<and>
          m_capacity s' = m_capacity ?t0 \<and>
          m_size s' = m_size ?t0 + int (length (entries other)) \<and>
          m_size s' = int (length (entries s')) \<and>
          set (entries s') = set (entries ?t0) \<union> set (entries other)"
    using ld sz by (intro reinsert_ok empty_wf cap d) simp_all
  then obtain c where c: "reinsert n hf (entries other) ?t0 = Inr c" "hm_wf hf c"
    "m_capacity c = m_capacity other" "m_size c = int (length (entries other))"
    "m_size c = int (length (entries c))" "set (entries c) = set (entries other)"
    by auto
  have ci: "hm_inv hf c"
    unfolding hm_inv_def using c(2,3,4,5) sz ld by simp
  have b: "bindings c = bindings other"
    by (rule bindings_same [OF wf c(2) c(6)])
  have "equals hf c other = Inr True"
    using equals_iff_bindings [OF ci inv] b by simp
  with a c(1,3,4) ci b sz show ?thesis
    by (simp add: size_hm_def capacity_def)
qed

text \<open>
  Traversal under the invariant. On a table that satisfies the invariant, the traversal from \<open>begin()\<close> to
  \<open>end()\<close> returns, and what it yields is the contents of the buckets in index order,
  each bucket in its stored order (the order in which its pairs were appended). These
  are \<open>size()\<close> pairs, their keys are distinct, and they are exactly the keys for which
  \<open>containsKey\<close> is true. When \<open>size()\<close> is 0, \<open>begin()\<close> equals \<open>end()\<close>.
\<close>

lemma traverse_under_invariant:
  assumes "hm_inv hf t"
  shows "traverse t = Inr (concat (m_buckets t)) \<and>
         int (length (concat (m_buckets t))) = size_hm t \<and>
         distinct (map fst (concat (m_buckets t))) \<and>
         (\<forall>k. containsKey hf t k \<longleftrightarrow> k \<in> fst ` set (concat (m_buckets t))) \<and>
         (size_hm t = 0 \<longrightarrow> it_eq (begin_hm t) (end_hm t))"
proof -
  have wf: "hm_wf hf t" by (rule hm_inv_wf [OF assms])
  have cap: "1 \<le> m_capacity t" and len: "length (m_buckets t) = nat (m_capacity t)"
    using wf by (simp_all add: hm_wf_def)
  have sz: "m_size t = int (length (entries t))" using assms by (simp add: hm_inv_def)
  have 1: "traverse t = Inr (concat (m_buckets t))"
    using traverse_entries [OF cap len] by (simp add: entries_def)
  have 2: "int (length (concat (m_buckets t))) = size_hm t"
    using sz by (simp add: entries_def size_hm_def)
  have 3: "distinct (map fst (concat (m_buckets t)))"
    using wf_distinct [OF wf] by (simp add: entries_def)
  have 4: "containsKey hf t k \<longleftrightarrow> k \<in> fst ` set (concat (m_buckets t))" for k
    using containsKey_bindings [OF wf, of k]
    by (simp add: bindings_def entries_def map_of_eq_None_iff)
  have 5: "it_eq (begin_hm t) (end_hm t)" if "size_hm t = 0"
  proof -
    from that sz have "entries t = []" by (simp add: size_hm_def)
    then show ?thesis by (rule begin_end_empty [OF cap len])
  qed
  from 1 2 3 4 5 show ?thesis by blast
qed

lemma traverse_under_invariant_example:
  "hm_inv (\<lambda>k. k)
     (\<lparr>m_buckets = [] # [(1, 10), (17, 170)] # [(2, 20)] # replicate 13 [],
       m_size = 3, m_capacity = 16\<rparr> :: (nat, nat) HashMap) \<and>
   traverse (\<lparr>m_buckets = [] # [(1, 10), (17, 170)] # [(2, 20)] # replicate 13 [],
              m_size = 3, m_capacity = 16\<rparr> :: (nat, nat) HashMap)
     = Inr [(1, 10), (17, 170), (2, 20)] \<and>
   hm_inv (\<lambda>k. k) (HashMap_default :: (nat, nat) HashMap) \<and>
   size_hm (HashMap_default :: (nat, nat) HashMap) = 0 \<and>
   it_eq (begin_hm (HashMap_default :: (nat, nat) HashMap))
     (end_hm (HashMap_default :: (nat, nat) HashMap))"
proof -
  let ?t = "\<lparr>m_buckets = [] # [(1, 10), (17, 170)] # [(2, 20)] # replicate 13 [],
       m_size = 3, m_capacity = 16\<rparr> :: (nat, nat) HashMap"
  let ?d = "HashMap_default :: (nat, nat) HashMap"
  have r: "run (Suc 0) (\<lambda>k. k) ?d [Insert 1 10, Insert 17 170, Insert 2 20] = Inr ?t"
    by code_simp
  from run_ok [OF default_inv, where hf = "\<lambda>k::nat. k" and n = 0
      and ops = "[Insert 1 10, Insert 17 170, Insert 2 20] :: (nat, nat) operation list"]
  have i: "hm_inv (\<lambda>k. k) ?t" unfolding r by simp
  have d: "hm_inv (\<lambda>k. k) ?d" by (rule default_inv)
  have s: "size_hm ?d = 0" by (simp add: size_hm_def HashMap_default_def)
  from traverse_under_invariant [OF i] have "traverse ?t = Inr (concat (m_buckets ?t))"
    by blast
  then have 1: "traverse ?t = Inr [(1, 10), (17, 170), (2, 20)]" by simp
  from traverse_under_invariant [OF d] s have 2: "it_eq (begin_hm ?d) (end_hm ?d)"
    by blast
  from i 1 d s 2 show ?thesis by blast
qed

text \<open>
  Equality under the invariant. For two tables that satisfy the invariant (under the same hash function, whatever
  their capacities), \<open>a == b\<close> and \<open>b == a\<close> return the same answer, and the answer is
  true exactly when the sizes agree and every key of \<open>a\<close> has in \<open>b\<close> the value it
  has in \<open>a\<close>; that is exactly when the two tables hold the same bindings.
\<close>

lemma equals_under_invariant:
  assumes a: "hm_inv hf a" and b: "hm_inv hf b"
  shows "equals hf a b = equals hf b a \<and>
         equals hf a b =
           Inr (size_hm a = size_hm b \<and>
                (\<forall>k. containsKey hf a k \<longrightarrow> at_hm hf b k = at_hm hf a k)) \<and>
         equals hf a b = Inr (bindings a = bindings b)"
proof -
  have wa: "hm_wf hf a" and wb: "hm_wf hf b"
    using a b by (simp_all add: hm_inv_wf)
  have 1: "equals hf a b = Inr (bindings a = bindings b)"
    by (rule equals_iff_bindings [OF a b])
  have 2: "equals hf b a = Inr (bindings b = bindings a)"
    by (rule equals_iff_bindings [OF b a])
  have fin: "finite (dom (bindings b))" by (simp add: bindings_def finite_dom_map_of)
  have 3: "size_hm a = size_hm b \<and> (\<forall>k. containsKey hf a k \<longrightarrow> at_hm hf b k = at_hm hf a k)
           \<longleftrightarrow> bindings a = bindings b"
  proof
    assume h: "size_hm a = size_hm b \<and>
               (\<forall>k. containsKey hf a k \<longrightarrow> at_hm hf b k = at_hm hf a k)"
    have le: "bindings a \<subseteq>\<^sub>m bindings b"
      unfolding map_le_def
    proof
      fix k assume "k \<in> dom (bindings a)"
      then have "containsKey hf a k" by (auto simp: containsKey_bindings [OF wa])
      with h have "at_hm hf b k = at_hm hf a k" by blast
      then show "bindings a k = bindings b k" by (simp add: at_eq_iff [OF wa wb])
    qed
    have "card (dom (bindings a)) = card (dom (bindings b))"
      using h size_card [OF a] size_card [OF b] by (simp add: size_hm_def)
    from map_le_card_eq [OF le fin this] show "bindings a = bindings b" .
  next
    assume e: "bindings a = bindings b"
    then have "size_hm a = size_hm b"
      using size_card [OF a] size_card [OF b] by (simp add: size_hm_def)
    moreover have "at_hm hf b k = at_hm hf a k" for k
      using e by (simp add: at_eq_iff [OF wa wb])
    ultimately show "size_hm a = size_hm b \<and>
               (\<forall>k. containsKey hf a k \<longrightarrow> at_hm hf b k = at_hm hf a k)"
      by blast
  qed
  from 1 2 3 show ?thesis by (simp add: eq_commute)
qed

lemma equals_under_invariant_example:
  "hm_inv (\<lambda>k. k)
     (\<lparr>m_buckets = replicate 5 [] @ [(5, 7)] # replicate 10 [],
       m_size = 1, m_capacity = 16\<rparr> :: (nat, nat) HashMap) \<and>
   hm_inv (\<lambda>k. k)
     (\<lparr>m_buckets = replicate 5 [] @ [(5, 7)] # replicate 2 [],
       m_size = 1, m_capacity = 8\<rparr> :: (nat, nat) HashMap) \<and>
   equals (\<lambda>k. k)
     (\<lparr>m_buckets = replicate 5 [] @ [(5, 7)] # replicate 10 [],
       m_size = 1, m_capacity = 16\<rparr> :: (nat, nat) HashMap)
     \<lparr>m_buckets = replicate 5 [] @ [(5, 7)] # replicate 2 [],
      m_size = 1, m_capacity = 8\<rparr> = Inr True \<and>
   equals (\<lambda>k. k)
     (\<lparr>m_buckets = replicate 5 [] @ [(5, 7)] # replicate 2 [],
       m_size = 1, m_capacity = 8\<rparr> :: (nat, nat) HashMap)
     \<lparr>m_buckets = replicate 5 [] @ [(5, 7)] # replicate 10 [],
      m_size = 1, m_capacity = 16\<rparr> = Inr True"
proof -
  let ?a = "\<lparr>m_buckets = replicate 5 [] @ [(5, 7)] # replicate 10 [],
       m_size = 1, m_capacity = 16\<rparr> :: (nat, nat) HashMap"
  let ?b = "\<lparr>m_buckets = replicate 5 [] @ [(5, 7)] # replicate 2 [],
       m_size = 1, m_capacity = 8\<rparr> :: (nat, nat) HashMap"
  let ?d = "HashMap_default :: (nat, nat) HashMap"
  have ra: "run (Suc 0) (\<lambda>k. k) ?d [Insert 5 7] = Inr ?a"
    by code_simp
  have rb: "run (Suc 0) (\<lambda>k. k) ?d [Insert 5 7, Erase 5, Insert 5 7] = Inr ?b"
    by code_simp
  from run_ok [OF default_inv, where hf = "\<lambda>k::nat. k" and n = 0
      and ops = "[Insert 5 7] :: (nat, nat) operation list"]
  have a: "hm_inv (\<lambda>k. k) ?a" unfolding ra by simp
  from run_ok [OF default_inv, where hf = "\<lambda>k::nat. k" and n = 0
      and ops = "[Insert 5 7, Erase 5, Insert 5 7] :: (nat, nat) operation list"]
  have b: "hm_inv (\<lambda>k. k) ?b" unfolding rb by simp
  have e: "equals (\<lambda>k. k) ?a ?b = Inr True" by code_simp
  from equals_under_invariant [OF a b] e have "equals (\<lambda>k. k) ?b ?a = Inr True" by simp
  with a b e show ?thesis by blast
qed

text \<open>
  \<open>empty()\<close> is true exactly when \<open>size()\<close> is not zero; on a table that
  satisfies the invariant that is exactly when some pair is stored.
\<close>

lemma empty_hm_iff:
  "(empty_hm t \<longleftrightarrow> size_hm t \<noteq> 0) \<and>
   (hm_inv hf t \<longrightarrow> (empty_hm t \<longleftrightarrow> entries t \<noteq> []))"
  by (simp add: empty_hm_def size_hm_def hm_inv_def)

lemma empty_hm_iff_example:
  "hm_inv (\<lambda>k. k) (HashMap_default :: (nat, nat) HashMap) \<and>
   \<not> empty_hm (HashMap_default :: (nat, nat) HashMap) \<and>
   size_hm (HashMap_default :: (nat, nat) HashMap) = 0 \<and>
   entries (HashMap_default :: (nat, nat) HashMap) = []"
proof -
  have d: "hm_inv (\<lambda>k. k) (HashMap_default :: (nat, nat) HashMap)" by (rule default_inv)
  have s: "size_hm (HashMap_default :: (nat, nat) HashMap) = 0"
    by (simp add: size_hm_def HashMap_default_def)
  from empty_hm_iff [of "HashMap_default :: (nat, nat) HashMap" "\<lambda>k. k"] d s
  show ?thesis by auto
qed

section \<open>The claims\<close>

text \<open>
  C1. \<open>clear()\<close> empties every bucket and keeps \<open>_capacity\<close>, and it keeps \<open>_size\<close>
  as well: on the table that holds the one pair \<open>(5, 7)\<close>, \<open>size()\<close> is still 1
  after \<open>clear()\<close>, although no pair is stored and \<open>containsKey(5)\<close> is false.
\<close>

theorem clear_keeps_size:
  "insert_hm 1 (\<lambda>k. k) (HashMap_default :: (nat, nat) HashMap) 5 7
     = Inr (True, \<lparr>m_buckets = replicate 5 [] @ [(5, 7)] # replicate 10 [],
                   m_size = 1, m_capacity = 16\<rparr>) \<and>
   size_hm (clear (\<lparr>m_buckets = replicate 5 [] @ [(5, 7)] # replicate 10 [],
                    m_size = 1, m_capacity = 16\<rparr> :: (nat, nat) HashMap)) = 1 \<and>
   entries (clear (\<lparr>m_buckets = replicate 5 [] @ [(5, 7)] # replicate 10 [],
                    m_size = 1, m_capacity = 16\<rparr> :: (nat, nat) HashMap)) = [] \<and>
   \<not> containsKey (\<lambda>k. k)
       (clear (\<lparr>m_buckets = replicate 5 [] @ [(5, 7)] # replicate 10 [],
                m_size = 1, m_capacity = 16\<rparr> :: (nat, nat) HashMap)) 5 \<and>
   capacity (clear (\<lparr>m_buckets = replicate 5 [] @ [(5, 7)] # replicate 10 [],
                     m_size = 1, m_capacity = 16\<rparr> :: (nat, nat) HashMap)) = 16"
  by code_simp

text \<open>
  C2. The copy constructor starts \<open>_size\<close> at \<open>other._size\<close> and then inserts every
  pair of \<open>other\<close>, which counts each of them again. The copy of the table that holds
  the one pair \<open>(5, 7)\<close> has \<open>size()\<close> 2 and is not equal to the table it was copied
  from, in either order. The copy of a table of capacity 16 that holds seven pairs grows
  while it is filled and ends with capacity 32.
\<close>

theorem copy_constructor_counts_twice:
  "HashMap_copy 1 (\<lambda>k. k)
       (\<lparr>m_buckets = replicate 5 [] @ [(5, 7)] # replicate 10 [],
         m_size = 1, m_capacity = 16\<rparr> :: (nat, nat) HashMap)
     = Inr \<lparr>m_buckets = replicate 5 [] @ [(5, 7)] # replicate 10 [],
            m_size = 2, m_capacity = 16\<rparr> \<and>
   equals (\<lambda>k. k)
       (\<lparr>m_buckets = replicate 5 [] @ [(5, 7)] # replicate 10 [],
         m_size = 2, m_capacity = 16\<rparr> :: (nat, nat) HashMap)
       \<lparr>m_buckets = replicate 5 [] @ [(5, 7)] # replicate 10 [],
        m_size = 1, m_capacity = 16\<rparr> = Inr False \<and>
   equals (\<lambda>k. k)
       (\<lparr>m_buckets = replicate 5 [] @ [(5, 7)] # replicate 10 [],
         m_size = 1, m_capacity = 16\<rparr> :: (nat, nat) HashMap)
       \<lparr>m_buckets = replicate 5 [] @ [(5, 7)] # replicate 10 [],
        m_size = 2, m_capacity = 16\<rparr> = Inr False \<and>
   run 1 (\<lambda>k. k) (HashMap_default :: (nat, nat) HashMap) (map (\<lambda>k. Insert k k) [0..<7])
     = Inr \<lparr>m_buckets = map (\<lambda>k. [(k, k)]) [0..<7] @ replicate 9 [],
            m_size = 7, m_capacity = 16\<rparr> \<and>
   HashMap_copy 1 (\<lambda>k. k)
       (\<lparr>m_buckets = map (\<lambda>k. [(k, k)]) [0..<7] @ replicate 9 [],
         m_size = 7, m_capacity = 16\<rparr> :: (nat, nat) HashMap)
     = Inr \<lparr>m_buckets = map (\<lambda>k. [(k, k)]) [0..<7] @ replicate 25 [],
            m_size = 7, m_capacity = 32\<rparr>"
  by code_simp

text \<open>
  C3, as the code has it. Every table built from the default constructor by \<open>insert\<close>
  and \<open>erase\<close> has a capacity that is a power of two and at least 1; there is no floor
  at 16. In the example scenario (13 distinct keys inserted, then 11 of them erased, in
  any order and under any hash function) the capacity is 32 after the insertions and 8
  after the erasures.
\<close>

theorem capacity_power_of_two:
  "(\<exists>t. run (Suc n) hf HashMap_default ops = Inr t \<and>
        is_pow2 (capacity t) \<and> 1 \<le> capacity t) \<and>
   (distinct ks \<and> length ks = 13 \<and> length vs = 13 \<and>
    distinct es \<and> set es \<subseteq> set ks \<and> length es = 11 \<longrightarrow>
      (\<exists>t32 t8. run (Suc n) hf HashMap_default (map2 Insert ks vs) = Inr t32 \<and>
         capacity t32 = 32 \<and>
         run (Suc n) hf t32 (map Erase es) = Inr t8 \<and>
         capacity t8 = 8))"
proof (intro conjI impI)
  from run_reach [OF default_reach, where hf = hf and n = n and ops = ops] obtain t where
    t: "run (Suc n) hf HashMap_default ops = Inr t" "reach_inv hf t"
    by blast
  from t(2) have "is_pow2 (capacity t)" by (simp add: reach_inv_def capacity_def)
  moreover from this have "1 \<le> capacity t" by (rule pow2_pos)
  ultimately show "\<exists>t. run (Suc n) hf HashMap_default ops = Inr t \<and>
        is_pow2 (capacity t) \<and> 1 \<le> capacity t"
    using t(1) by blast
next
  assume "distinct ks \<and> length ks = 13 \<and> length vs = 13 \<and>
    distinct es \<and> set es \<subseteq> set ks \<and> length es = 11"
  then have a: "distinct ks" "length ks = 13" "length vs = 13"
    "distinct es" "set es \<subseteq> set ks" "length es = 11"
    by simp_all
  from scenario_13_11 [OF a, where n = n and hf = hf]
  show "\<exists>t32 t8. run (Suc n) hf HashMap_default (map2 Insert ks vs) = Inr t32 \<and>
         capacity t32 = 32 \<and>
         run (Suc n) hf t32 (map Erase es) = Inr t8 \<and>
         capacity t8 = 8"
    by blast
qed

theorem capacity_power_of_two_witness:
  "distinct [0..<13::nat] \<and> length [0..<13::nat] = 13 \<and>
   distinct [0..<11::nat] \<and> set [0..<11::nat] \<subseteq> set [0..<13] \<and> length [0..<11::nat] = 11 \<and>
   (\<exists>t32 t8.
      run 1 (\<lambda>k. k) (HashMap_default :: (nat, nat) HashMap) (map2 Insert [0..<13] [0..<13])
        = Inr t32 \<and>
      capacity t32 = 32 \<and>
      run 1 (\<lambda>k. k) t32 (map Erase [0..<11]) = Inr t8 \<and>
      capacity t8 = 8) \<and>
   (\<exists>t. run 1 (\<lambda>k. k) (HashMap_default :: (nat, nat) HashMap) [Insert 5 7, Erase 5] = Inr t \<and>
        is_pow2 (capacity t) \<and> 1 \<le> capacity t)"
  using capacity_power_of_two [where hf = "\<lambda>k::nat. k" and n = 0
      and ks = "[0..<13]" and vs = "[0..<13::nat]" and es = "[0..<11]"
      and ops = "[Insert 5 7, Erase 5] :: (nat, nat) operation list"]
  by simp

theorem capacity_below_16:
  "run 1 (\<lambda>k. k) (HashMap_default :: (nat, nat) HashMap) [Insert 5 7, Erase 5]
     = Inr \<lparr>m_buckets = replicate 8 [], m_size = 0, m_capacity = 8\<rparr> \<and>
   capacity (\<lparr>m_buckets = replicate 8 [], m_size = 0, m_capacity = 8\<rparr> :: (nat, nat) HashMap)
     = 8 \<and>
   map_sum id capacity
     (run 1 (\<lambda>k. k) (HashMap_default :: (nat, nat) HashMap) (map (\<lambda>k. Insert k k) [0..<13]))
     = Inr 32 \<and>
   map_sum id capacity
     (run 1 (\<lambda>k. k) (HashMap_default :: (nat, nat) HashMap)
        (map (\<lambda>k. Insert k k) [0..<13] @ map Erase [0..<11]))
     = Inr 8"
  by code_simp

text \<open>
  C4, as the code has it. On a table built from the default constructor by \<open>insert\<close>
  and \<open>erase\<close>, every further \<open>insert\<close> or \<open>erase\<close> returns, and afterwards the load
  factor is at most \<open>0.75\<close>, and at least \<open>0.25\<close> unless the capacity is 16 or less.
  Capacities below 16 occur, and there the load factor can be below \<open>0.25\<close>.
\<close>

theorem load_factor_bounds:
  "(reach_inv hf t \<longrightarrow>
      (\<exists>b t'. apply_op (Suc n) hf t x = Inr (b, t') \<and> reach_inv hf t' \<and>
         getLoadFactor t' \<le> DEF_HIGH_BOUND \<and>
         (DEF_LOW_BOUND \<le> getLoadFactor t' \<or> capacity t' \<le> 16))) \<and>
   (\<exists>t. run (Suc n) hf HashMap_default ops = Inr t \<and> reach_inv hf t)"
proof (intro conjI impI)
  assume "reach_inv hf t"
  from apply_op_reach [OF this, of n x] obtain b t' where
    t': "apply_op (Suc n) hf t x = Inr (b, t')" "reach_inv hf t'"
    by blast
  from t' reach_load [OF t'(2)]
  show "\<exists>b t'. apply_op (Suc n) hf t x = Inr (b, t') \<and> reach_inv hf t' \<and>
         getLoadFactor t' \<le> DEF_HIGH_BOUND \<and>
         (DEF_LOW_BOUND \<le> getLoadFactor t' \<or> capacity t' \<le> 16)"
    by blast
next
  show "\<exists>t. run (Suc n) hf HashMap_default ops = Inr t \<and> reach_inv hf t"
    by (rule run_reach [OF default_reach])
qed

theorem load_factor_bounds_witness:
  "reach_inv (\<lambda>k. k) (HashMap_default :: (nat, nat) HashMap) \<and>
   (\<exists>b t'. apply_op 1 (\<lambda>k. k) (HashMap_default :: (nat, nat) HashMap) (Insert 5 7)
              = Inr (b, t') \<and>
      reach_inv (\<lambda>k. k) t' \<and> getLoadFactor t' \<le> DEF_HIGH_BOUND \<and>
      (DEF_LOW_BOUND \<le> getLoadFactor t' \<or> capacity t' \<le> 16))"
  using load_factor_bounds [where hf = "\<lambda>k::nat. k" and n = 0
      and t = "HashMap_default :: (nat, nat) HashMap" and x = "Insert 5 7"
      and ops = "[]"]
    default_reach [where hf = "\<lambda>k::nat. k" and 'b = nat]
  unfolding One_nat_def by blast

theorem load_factor_below_quarter:
  "run 1 (\<lambda>k. k) (HashMap_default :: (nat, nat) HashMap) [Insert 5 7, Erase 5]
     = Inr \<lparr>m_buckets = replicate 8 [], m_size = 0, m_capacity = 8\<rparr> \<and>
   insert_hm 1 (\<lambda>k. k)
       (\<lparr>m_buckets = replicate 8 [], m_size = 0, m_capacity = 8\<rparr> :: (nat, nat) HashMap) 5 7
     = Inr (True, \<lparr>m_buckets = replicate 5 [] @ [(5, 7)] # replicate 2 [],
                   m_size = 1, m_capacity = 8\<rparr>) \<and>
   capacity (\<lparr>m_buckets = replicate 5 [] @ [(5, 7)] # replicate 2 [],
              m_size = 1, m_capacity = 8\<rparr> :: (nat, nat) HashMap) = 8 \<and>
   getLoadFactor (\<lparr>m_buckets = replicate 5 [] @ [(5, 7)] # replicate 2 [],
                   m_size = 1, m_capacity = 8\<rparr> :: (nat, nat) HashMap) = 1 / 8 \<and>
   getLoadFactor (\<lparr>m_buckets = replicate 5 [] @ [(5, 7)] # replicate 2 [],
                   m_size = 1, m_capacity = 8\<rparr> :: (nat, nat) HashMap) < DEF_LOW_BOUND"
proof -
  have "run 1 (\<lambda>k. k) (HashMap_default :: (nat, nat) HashMap) [Insert 5 7, Erase 5]
     = Inr \<lparr>m_buckets = replicate 8 [], m_size = 0, m_capacity = 8\<rparr>"
    by code_simp
  moreover have "insert_hm 1 (\<lambda>k. k)
       (\<lparr>m_buckets = replicate 8 [], m_size = 0, m_capacity = 8\<rparr> :: (nat, nat) HashMap) 5 7
     = Inr (True, \<lparr>m_buckets = replicate 5 [] @ [(5, 7)] # replicate 2 [],
                   m_size = 1, m_capacity = 8\<rparr>)"
    by code_simp
  ultimately show ?thesis
    by (simp add: capacity_def getLoadFactor_def DEF_LOW_BOUND_def)
qed

text \<open>
  C5. When the key is present, \<open>insert\<close> returns false and the table it leaves is the
  table it was given, whatever the value. On a table that satisfies the invariant and
  does not hold \<open>k\<close>, \<open>insert(k, v1)\<close> succeeds, a following \<open>insert(k, v2)\<close> returns
  false and changes nothing, and \<open>at(k)\<close> is \<open>v1\<close>.
\<close>

theorem insert_present_unchanged:
  "(containsKey hf t k \<longrightarrow> insert_hm n hf t k v2 = Inr (False, t)) \<and>
   (hm_inv hf t \<and> \<not> containsKey hf t k \<longrightarrow>
      (\<exists>t1. insert_hm (Suc n) hf t k v1 = Inr (True, t1) \<and>
            insert_hm m hf t1 k v2 = Inr (False, t1) \<and>
            at_hm hf t1 k = Inr v1))"
proof (intro conjI impI)
  assume "containsKey hf t k"
  then show "insert_hm n hf t k v2 = Inr (False, t)" by (simp add: insert_hm_unfold)
next
  assume "hm_inv hf t \<and> \<not> containsKey hf t k"
  then obtain t1 where t1: "insert_hm (Suc n) hf t k v1 = Inr (True, t1)"
    "containsKey hf t1 k" "at_hm hf t1 k = Inr v1"
    using insert_again [of hf t k n v1] by blast
  from t1(2) have "insert_hm m hf t1 k v2 = Inr (False, t1)" by (simp add: insert_hm_unfold)
  with t1 show "\<exists>t1. insert_hm (Suc n) hf t k v1 = Inr (True, t1) \<and>
            insert_hm m hf t1 k v2 = Inr (False, t1) \<and> at_hm hf t1 k = Inr v1"
    by blast
qed

theorem insert_present_unchanged_witness:
  "containsKey (\<lambda>k. k)
     (\<lparr>m_buckets = [[(0, 7)], []], m_size = 1, m_capacity = 2\<rparr> :: (nat, nat) HashMap) 0 \<and>
   insert_hm 0 (\<lambda>k. k)
     (\<lparr>m_buckets = [[(0, 7)], []], m_size = 1, m_capacity = 2\<rparr> :: (nat, nat) HashMap) 0 9
     = Inr (False, \<lparr>m_buckets = [[(0, 7)], []], m_size = 1, m_capacity = 2\<rparr>) \<and>
   hm_inv (\<lambda>k. k) (HashMap_default :: (nat, nat) HashMap) \<and>
   \<not> containsKey (\<lambda>k. k) (HashMap_default :: (nat, nat) HashMap) 5 \<and>
   (\<exists>t1. insert_hm 1 (\<lambda>k. k) (HashMap_default :: (nat, nat) HashMap) 5 7 = Inr (True, t1) \<and>
         insert_hm 0 (\<lambda>k. k) t1 5 9 = Inr (False, t1) \<and> at_hm (\<lambda>k. k) t1 5 = Inr 7)"
proof -
  let ?t = "\<lparr>m_buckets = [[(0, 7)], []], m_size = 1, m_capacity = 2\<rparr> :: (nat, nat) HashMap"
  have c: "containsKey (\<lambda>k. k) ?t 0"
    by (simp add: containsKey_def bucketIndex_def hashy_def)
  have d: "hm_inv (\<lambda>k. k) (HashMap_default :: (nat, nat) HashMap)" by (rule default_inv)
  have a: "\<not> containsKey (\<lambda>k. k) (HashMap_default :: (nat, nat) HashMap) 5"
    by code_simp
  from insert_present_unchanged [where hf = "\<lambda>k. k" and t = ?t and k = 0 and n = 0
      and ?v2.0 = 9] c
    insert_present_unchanged [where hf = "\<lambda>k. k"
      and t = "HashMap_default :: (nat, nat) HashMap" and k = 5
      and n = 0 and ?v1.0 = 7 and ?v2.0 = 9 and m = 0] d a
  show ?thesis by simp
qed

text \<open>
  C6. The constructor throws when the two sequences differ in length. When they have the
  same length it returns a table whose bindings are those of assigning the pairs in
  turn, a later value for a key replacing the earlier one, and whose \<open>size()\<close> is the
  number of distinct keys. From keys \<open>[x, y, x]\<close> and values \<open>[v1, v2, v3]\<close> with
  \<open>x \<noteq> y\<close> the table has \<open>size()\<close> 2, \<open>at(x)\<close> is \<open>v3\<close> and \<open>at(y)\<close> is \<open>v2\<close>.
\<close>

theorem construct_from_sequences:
  "(length ks \<noteq> length vs \<longrightarrow> HashMap_from n hf a ks vs = Inl StdException) \<and>
   (length ks = length vs \<longrightarrow>
      (\<exists>t. HashMap_from (Suc n) hf a ks vs = Inr t \<and> hm_inv hf t \<and>
           bindings t = assign_all ks vs Map.empty \<and>
           (\<forall>k. at_hm hf t k =
              (case assign_all ks vs Map.empty k of
                 None \<Rightarrow> Inl StdException | Some v \<Rightarrow> Inr v)) \<and>
           size_hm t = int (card (set ks)))) \<and>
   (x \<noteq> y \<longrightarrow>
      (\<exists>t. HashMap_from (Suc n) hf a [x, y, x] [v1, v2, v3] = Inr t \<and>
           size_hm t = 2 \<and> at_hm hf t x = Inr v3 \<and> at_hm hf t y = Inr v2))"
proof -
  have general: "\<exists>t. HashMap_from (Suc n) hf a ks vs = Inr t \<and> hm_inv hf t \<and>
           bindings t = assign_all ks vs Map.empty \<and>
           (\<forall>k. at_hm hf t k =
              (case assign_all ks vs Map.empty k of
                 None \<Rightarrow> Inl StdException | Some v \<Rightarrow> Inr v)) \<and>
           size_hm t = int (card (set ks))"
    if l: "length ks = length vs" for ks :: "'a list" and vs :: "'b list"
  proof -
    from from_loop_ok [OF default_inv l, where hf = hf and n = n and a = a] obtain t where t:
      "from_loop (Suc n) hf a ks vs HashMap_default = Inr t" "hm_inv hf t"
      "bindings t = assign_all ks vs Map.empty"
      by (auto simp: default_bindings)
    have 1: "HashMap_from (Suc n) hf a ks vs = Inr t"
      using l t(1) by (simp add: HashMap_from_def)
    have 2: "at_hm hf t k =
              (case assign_all ks vs Map.empty k of
                 None \<Rightarrow> Inl StdException | Some v \<Rightarrow> Inr v)" for k
      by (simp add: at_bindings [OF hm_inv_wf [OF t(2)]] t(3))
    have "dom (bindings t) = set ks"
      unfolding t(3) by (simp add: dom_assign_all [OF l])
    with size_card [OF t(2)] have 3: "size_hm t = int (card (set ks))"
      by (simp add: size_hm_def)
    from 1 t(2,3) 2 3 show ?thesis by blast
  qed
  have example: "\<exists>t. HashMap_from (Suc n) hf a [x, y, x] [v1, v2, v3] = Inr t \<and>
           size_hm t = 2 \<and> at_hm hf t x = Inr v3 \<and> at_hm hf t y = Inr v2"
    if xy: "x \<noteq> y"
  proof -
    from general [of "[x, y, x]" "[v1, v2, v3]"] obtain t where t:
      "HashMap_from (Suc n) hf a [x, y, x] [v1, v2, v3] = Inr t"
      "\<forall>k. at_hm hf t k =
              (case assign_all [x, y, x] [v1, v2, v3] Map.empty k of
                 None \<Rightarrow> Inl StdException | Some v \<Rightarrow> Inr v)"
      "size_hm t = int (card (set [x, y, x]))"
      by auto
    from xy have "card (set [x, y, x]) = 2" by (simp add: insert_commute)
    with t(3) have "size_hm t = 2" by simp
    moreover from t(2) xy have "at_hm hf t x = Inr v3" "at_hm hf t y = Inr v2"
      by (simp_all add: assign_all_def)
    ultimately show ?thesis using t(1) by blast
  qed
  show ?thesis
    using general example by (simp add: HashMap_from_def)
qed

theorem construct_from_sequences_witness:
  "length [1, 2, 1 :: nat] \<noteq> length [10, 20 :: nat] \<and>
   HashMap_from 0 (\<lambda>k. k) 0 [1, 2, 1 :: nat] [10, 20 :: nat] = Inl StdException \<and>
   length [1, 2, 1 :: nat] = length [1, 2, 3 :: nat] \<and> (1 :: nat) \<noteq> 2 \<and>
   (\<exists>t. HashMap_from (Suc 0) (\<lambda>k. k) 0 [1, 2, 1 :: nat] [1, 2, 3 :: nat] = Inr t \<and>
        size_hm t = 2 \<and> at_hm (\<lambda>k. k) t 1 = Inr 3 \<and> at_hm (\<lambda>k. k) t 2 = Inr 2)"
proof -
  from construct_from_sequences [where ks = "[1, 2, 1 :: nat]" and vs = "[10, 20 :: nat]"
      and n = 0 and hf = "\<lambda>k. k" and a = 0]
  have 1: "HashMap_from 0 (\<lambda>k. k) 0 [1, 2, 1 :: nat] [10, 20 :: nat] = Inl StdException"
    by simp
  from construct_from_sequences [where x = "1 :: nat" and y = 2 and n = 0
      and hf = "\<lambda>k. k" and a = "0 :: nat" and ?v1.0 = 1 and ?v2.0 = 2 and ?v3.0 = 3]
  have 2: "\<exists>t. HashMap_from (Suc 0) (\<lambda>k. k) 0 [1, 2, 1 :: nat] [1, 2, 3 :: nat] = Inr t \<and>
        size_hm t = 2 \<and> at_hm (\<lambda>k. k) t 1 = Inr 3 \<and> at_hm (\<lambda>k. k) t 2 = Inr 2"
    by simp
  from 1 2 show ?thesis by simp
qed

text \<open>
  C7. Every sequence of \<open>insert\<close> and \<open>erase\<close> on a default-constructed table
  returns a table, and in it every key whose \<open>insert\<close> succeeded (the key was absent
  when it was inserted) and which no later operation erased is present, with the value it
  was inserted with, whatever resizes happened on the way.
\<close>

theorem inserted_keys_survive:
  "\<exists>t. run (Suc n) hf HashMap_default ops = Inr t \<and>
     (\<forall>pre k v post tp.
        ops = pre @ Insert k v # post \<and>
        run (Suc n) hf HashMap_default pre = Inr tp \<and> \<not> containsKey hf tp k \<and>
        Erase k \<notin> set post
        \<longrightarrow> containsKey hf t k \<and> at_hm hf t k = Inr v)"
proof -
  from run_ok [OF default_inv, where hf = hf and n = n and ops = ops] obtain t where
    t: "run (Suc n) hf HashMap_default ops = Inr t" "hm_inv hf t"
      "bindings t = foldl abs_apply Map.empty ops"
    by (auto simp: default_bindings)
  have wf: "hm_wf hf t" by (rule hm_inv_wf [OF t(2)])
  have "containsKey hf t k \<and> at_hm hf t k = Inr v"
    if d: "ops = pre @ Insert k v # post"
      and p: "run (Suc n) hf HashMap_default pre = Inr tp"
      and a: "\<not> containsKey hf tp k" and e: "Erase k \<notin> set post"
    for pre k v post tp
  proof -
    from run_ok [OF default_inv, where hf = hf and n = n and ops = pre] p have
      tp: "hm_inv hf tp" "bindings tp = foldl abs_apply Map.empty pre"
      by (auto simp: default_bindings)
    from a containsKey_bindings [OF hm_inv_wf [OF tp(1)], of k]
    have "bindings tp k = None" by simp
    then have "abs_apply (foldl abs_apply Map.empty pre) (Insert k v) k = Some v"
      by (simp add: tp(2))
    from abs_apply_keeps [where m = "abs_apply (foldl abs_apply Map.empty pre) (Insert k v)"
        and k = k and v = v and post = post, OF this e]
    have "bindings t k = Some v"
      by (simp add: t(3) d)
    then show ?thesis
      by (simp add: containsKey_bindings [OF wf] at_bindings [OF wf])
  qed
  with t(1) show ?thesis by blast
qed

theorem inserted_keys_survive_witness:
  "run (Suc 0) (\<lambda>k. k) (HashMap_default :: (nat, nat) HashMap) [] = Inr HashMap_default \<and>
   \<not> containsKey (\<lambda>k. k) (HashMap_default :: (nat, nat) HashMap) 1 \<and>
   Erase 1 \<notin> set [Insert 2 20, Erase (2::nat) :: (nat, nat) operation] \<and>
   (\<exists>t. run (Suc 0) (\<lambda>k. k) (HashMap_default :: (nat, nat) HashMap)
           [Insert 1 10, Insert 2 20, Erase 2] = Inr t \<and>
        capacity t = 8 \<and> containsKey (\<lambda>k. k) t 1 \<and> at_hm (\<lambda>k. k) t 1 = Inr 10)"
proof -
  let ?d = "HashMap_default :: (nat, nat) HashMap"
  let ?ops = "[Insert 1 10, Insert 2 20, Erase 2] :: (nat, nat) operation list"
  have a: "\<not> containsKey (\<lambda>k. k) ?d 1"
    by code_simp
  have r: "run (Suc 0) (\<lambda>k. k) ?d [] = Inr ?d" by simp
  have e: "Erase 1 \<notin> set [Insert 2 20, Erase (2::nat) :: (nat, nat) operation]" by simp
  have d: "?ops = [] @ Insert 1 10 # [Insert 2 20, Erase 2]" by simp
  from inserted_keys_survive [where hf = "\<lambda>k::nat. k" and n = 0 and ops = ?ops]
  obtain t where t: "run (Suc 0) (\<lambda>k. k) ?d ?ops = Inr t"
    "\<forall>pre k v post tp.
        ?ops = pre @ Insert k v # post \<and>
        run (Suc 0) (\<lambda>k. k) ?d pre = Inr tp \<and> \<not> containsKey (\<lambda>k. k) tp k \<and>
        Erase k \<notin> set post
        \<longrightarrow> containsKey (\<lambda>k. k) t k \<and> at_hm (\<lambda>k. k) t k = Inr v"
    by blast
  from t(2) d r a e have k: "containsKey (\<lambda>k. k) t 1 \<and> at_hm (\<lambda>k. k) t 1 = Inr 10"
    by blast
  have "map_sum id capacity (run (Suc 0) (\<lambda>k. k) ?d ?ops) = Inr 8"
    by code_simp
  with t(1) have "capacity t = 8" by simp
  with t(1) k a r e show ?thesis by blast
qed

text \<open>
  C8. The traversal from \<open>begin()\<close> to \<open>end()\<close> yields the pairs that are stored,
  and that is not always \<open>size()\<close> pairs. On the table that held the one pair
  \<open>(5, 7)\<close> and was cleared, the traversal yields no pair while \<open>size()\<close> is 1; on
  the copy-constructed copy of the table that holds \<open>(5, 7)\<close>, it yields one pair while
  \<open>size()\<close> is 2. Both come from a \<open>_size\<close> that \<open>clear()\<close> and the copy constructor
  leave wrong; where \<open>_size\<close> is the number of stored pairs the traversal is complete
  (\<open>traverse_under_invariant\<close>).
\<close>

theorem traversal_not_size_after_clear:
  "insert_hm 1 (\<lambda>k. k) (HashMap_default :: (nat, nat) HashMap) 5 7
     = Inr (True, \<lparr>m_buckets = replicate 5 [] @ [(5, 7)] # replicate 10 [],
                   m_size = 1, m_capacity = 16\<rparr>) \<and>
   traverse (clear (\<lparr>m_buckets = replicate 5 [] @ [(5, 7)] # replicate 10 [],
            m_size = 1, m_capacity = 16\<rparr> :: (nat, nat) HashMap)) = Inr [] \<and>
   size_hm (clear (\<lparr>m_buckets = replicate 5 [] @ [(5, 7)] # replicate 10 [],
            m_size = 1, m_capacity = 16\<rparr> :: (nat, nat) HashMap)) = 1 \<and>
   HashMap_copy 1 (\<lambda>k. k) (\<lparr>m_buckets = replicate 5 [] @ [(5, 7)] # replicate 10 [],
            m_size = 1, m_capacity = 16\<rparr> :: (nat, nat) HashMap)
     = Inr \<lparr>m_buckets = replicate 5 [] @ [(5, 7)] # replicate 10 [],
            m_size = 2, m_capacity = 16\<rparr> \<and>
   traverse (\<lparr>m_buckets = replicate 5 [] @ [(5, 7)] # replicate 10 [],
            m_size = 2, m_capacity = 16\<rparr> :: (nat, nat) HashMap) = Inr [(5, 7)] \<and>
   size_hm (\<lparr>m_buckets = replicate 5 [] @ [(5, 7)] # replicate 10 [],
            m_size = 2, m_capacity = 16\<rparr> :: (nat, nat) HashMap) = 2"
  by code_simp

text \<open>
  C9. \<open>operator==\<close> compares \<open>_size\<close> and then looks up the pairs of its argument
  only, so it is symmetric only where \<open>_size\<close> is the number of stored pairs. With \<open>a\<close>
  the table that holds the one pair \<open>(5, 7)\<close> and \<open>s\<close> that table after \<open>clear()\<close>,
  both have \<open>size()\<close> 1, key 5 is bound in \<open>a\<close> and not in \<open>s\<close>, \<open>a == s\<close> is true
  and \<open>s == a\<close> is false. Where \<open>_size\<close> is right, equality is symmetric and is
  equality of the bindings (\<open>equals_under_invariant\<close>).
\<close>

theorem equality_asymmetric_after_clear:
  "insert_hm 1 (\<lambda>k. k) (HashMap_default :: (nat, nat) HashMap) 5 7
     = Inr (True, \<lparr>m_buckets = replicate 5 [] @ [(5, 7)] # replicate 10 [],
                   m_size = 1, m_capacity = 16\<rparr>) \<and>
   size_hm (\<lparr>m_buckets = replicate 5 [] @ [(5, 7)] # replicate 10 [],
            m_size = 1, m_capacity = 16\<rparr> :: (nat, nat) HashMap) = 1 \<and>
   size_hm (clear (\<lparr>m_buckets = replicate 5 [] @ [(5, 7)] # replicate 10 [],
            m_size = 1, m_capacity = 16\<rparr> :: (nat, nat) HashMap)) = 1 \<and>
   containsKey (\<lambda>k. k) (\<lparr>m_buckets = replicate 5 [] @ [(5, 7)] # replicate 10 [],
            m_size = 1, m_capacity = 16\<rparr> :: (nat, nat) HashMap) 5 \<and>
   \<not> containsKey (\<lambda>k. k) (clear (\<lparr>m_buckets = replicate 5 [] @ [(5, 7)] # replicate 10 [],
            m_size = 1, m_capacity = 16\<rparr> :: (nat, nat) HashMap)) 5 \<and>
   equals (\<lambda>k. k) (\<lparr>m_buckets = replicate 5 [] @ [(5, 7)] # replicate 10 [],
            m_size = 1, m_capacity = 16\<rparr> :: (nat, nat) HashMap)
     (clear (\<lparr>m_buckets = replicate 5 [] @ [(5, 7)] # replicate 10 [],
            m_size = 1, m_capacity = 16\<rparr> :: (nat, nat) HashMap)) = Inr True \<and>
   equals (\<lambda>k. k) (clear (\<lparr>m_buckets = replicate 5 [] @ [(5, 7)] # replicate 10 [],
            m_size = 1, m_capacity = 16\<rparr> :: (nat, nat) HashMap))
     (\<lparr>m_buckets = replicate 5 [] @ [(5, 7)] # replicate 10 [],
            m_size = 1, m_capacity = 16\<rparr> :: (nat, nat) HashMap) = Inr False"
  by code_simp

text \<open>
  C10. \<open>empty()\<close> returns \<open>_size != 0\<close>, which is not always "some pair is stored":
  on the table that held the one pair \<open>(5, 7)\<close> and was cleared, \<open>empty()\<close> is true
  although no pair is stored, no key is found and the traversal yields nothing. This is
  the \<open>_size\<close> that \<open>clear()\<close> leaves wrong; where \<open>_size\<close> is the number of stored
  pairs, \<open>empty()\<close> is true exactly when a pair is stored (\<open>empty_hm_iff\<close>).
\<close>

theorem empty_true_after_clear:
  "insert_hm 1 (\<lambda>k. k) (HashMap_default :: (nat, nat) HashMap) 5 7
     = Inr (True, \<lparr>m_buckets = replicate 5 [] @ [(5, 7)] # replicate 10 [],
                   m_size = 1, m_capacity = 16\<rparr>) \<and>
   empty_hm (clear (\<lparr>m_buckets = replicate 5 [] @ [(5, 7)] # replicate 10 [],
            m_size = 1, m_capacity = 16\<rparr> :: (nat, nat) HashMap)) \<and>
   size_hm (clear (\<lparr>m_buckets = replicate 5 [] @ [(5, 7)] # replicate 10 [],
            m_size = 1, m_capacity = 16\<rparr> :: (nat, nat) HashMap)) = 1 \<and>
   entries (clear (\<lparr>m_buckets = replicate 5 [] @ [(5, 7)] # replicate 10 [],
            m_size = 1, m_capacity = 16\<rparr> :: (nat, nat) HashMap)) = [] \<and>
   \<not> containsKey (\<lambda>k. k) (clear (\<lparr>m_buckets = replicate 5 [] @ [(5, 7)] # replicate 10 [],
            m_size = 1, m_capacity = 16\<rparr> :: (nat, nat) HashMap)) 5 \<and>
   traverse (clear (\<lparr>m_buckets = replicate 5 [] @ [(5, 7)] # replicate 10 [],
            m_size = 1, m_capacity = 16\<rparr> :: (nat, nat) HashMap)) = Inr []"
  by code_simp

end
